theory Spec2Isabelle
  imports Complex_Main "HOL-Library.AList" "HOL-Library.Log_Nat"
begin

section \<open>Depth-time interpolation of the water-column processor\<close>

text \<open>
  A shallow embedding of \<^verbatim>\<open>SensorDataProcessor.perform_interpolation\<close>
  (\<^verbatim>\<open>src/WC_Vars_PSIV.py\<close>, lines 804 to 966).

  Conventions of the model:
  \<^item> a floating-point number is a rational; \<^verbatim>\<open>NaN\<close>, the missing-value marker, is
    \<open>None\<close>, so a cell of a value array is a \<open>rat option\<close>. The routine is modelled
    with exact arithmetic; the two places where it computes with doubles, the depth axis
    and the blend of two readings, are modelled a second time with the rounding of
    doubles (section on double arithmetic below);
  \<^item> a timestamp is an integer (nanoseconds since the epoch);
  \<^item> a dictionary whose iteration order the code relies on is an association list in
    insertion order;
  \<^item> a message box raised by the code is appended to the \<open>messages\<close> log of the state;
  \<^item> an exception is a value of type \<open>error\<close>; the surrounding
    \<^verbatim>\<open>try ... except Exception\<close> turns it into a message and keeps the state reached;
  \<^item> the widgets updated after the loop over the variables (lines 956 to 962) are not part
    of the state.
\<close>

subsection \<open>Data model\<close>

type_synonym timestamp = int

type_synonym cell = "rat option"

text \<open>A pandas data frame: its index and its columns, one value per index entry.\<close>

record frame =
  index :: "timestamp list"
  columns :: "(string \<times> cell list) list"

text \<open>
  The exceptions of the routine: a zero step given to \<^verbatim>\<open>np.arange\<close>, a number of
  depth points beyond the range of the index type, and the local variable \<^verbatim>\<open>depths\<close>
  read at line 929 before any pass of the loop over the time index has bound it.
\<close>

datatype error = ZeroDivisionError | OverflowError | UnboundLocalError

datatype message =
    NoData
  | NoVariables
  | NoCommonTimes
  | NoTimeIndex
  | MissingVariable string
  | InterpolationError error

text \<open>
  The dictionary stored per variable: \<^verbatim>\<open>{'data': var_array, 'depths': depth_points,
  'times': DatetimeIndex(time_index)}\<close>; \<open>data\<close> is indexed \<^verbatim>\<open>[d_idx][t_idx]\<close>.
\<close>

record grid =
  data :: "cell list list"
  depths :: "rat list"
  times_axis :: "timestamp list"

record processor =
  depth_arrays :: "(rat \<times> frame) list"
  depth_resolution :: rat
  max_depth :: rat
  fill_values :: bool
  interp_var_checkboxes :: "(string \<times> bool) list"
  interpolated_arrays :: "string \<rightharpoonup> grid"
  messages :: "message list"

subsection \<open>Library operations used by the routine\<close>

text \<open>\<^verbatim>\<open>Index.equals\<close>: the same entries in the same order.\<close>

definition equals :: "timestamp list \<Rightarrow> timestamp list \<Rightarrow> bool" where
  "equals a b = (a = b)"

text \<open>
  \<^verbatim>\<open>Index.intersection\<close> (with its default \<^verbatim>\<open>sort=False\<close>) on indexes without
  duplicates: the entries of the receiver that also occur in the argument, in the
  receiver's order.
\<close>

definition intersection :: "timestamp list \<Rightarrow> timestamp list \<Rightarrow> timestamp list" where
  "intersection a b = filter (\<lambda>t. t \<in> set b) a"

text \<open>
  \<^verbatim>\<open>np.arange(start, stop, step)\<close>: \<open>\<lceil>(stop - start) / step\<rceil>\<close> points
  \<open>start + i * step\<close> (none when that number is negative). A zero step raises, and so
  does a number of points outside the range \<open>-2\<^sup>6\<^sup>3 \<dots> 2\<^sup>6\<^sup>3\<close> of the index type. An axis
  within that range that does not fit into memory is outside the model.
\<close>

definition arange :: "rat \<Rightarrow> rat \<Rightarrow> rat \<Rightarrow> error + rat list" where
  "arange start stop step =
     (if step = 0 then Inl ZeroDivisionError
      else
        (let n = \<lceil>(stop - start) / step\<rceil>
         in if n < - (2 ^ 63) \<or> 2 ^ 63 < n then Inl OverflowError
            else Inr (map (\<lambda>i. start + of_nat i * step) [0..<nat n])))"

text \<open>\<^verbatim>\<open>np.argsort\<close>: the positions of the entries, in ascending order of the entries.\<close>

definition argsort :: "rat list \<Rightarrow> nat list" where
  "argsort xs = map snd (sort_key fst (zip xs [0..<length xs]))"

text \<open>
  \<^verbatim>\<open>np.searchsorted(a, v)\<close> (side \<^verbatim>\<open>'left'\<close>) on an ascending array: the first
  position whose entry is not below \<open>v\<close>, the length when there is none.
\<close>

definition searchsorted :: "rat list \<Rightarrow> rat \<Rightarrow> nat" where
  "searchsorted a v = length (takeWhile (\<lambda>x. x < v) a)"

text \<open>
  \<^verbatim>\<open>df.loc[time_index, var].values\<close> and \<^verbatim>\<open>df.reindex(time_index)[var].values\<close>
  on a frame whose index has no duplicate: the value of column \<open>var\<close> at each timestamp,
  and under \<^verbatim>\<open>reindex\<close> the missing-value marker at a timestamp the frame lacks.
\<close>

definition value_at :: "frame \<Rightarrow> string \<Rightarrow> timestamp \<Rightarrow> cell" where
  "value_at df var t =
     (case map_of (columns df) var of
        None \<Rightarrow> None
      | Some col \<Rightarrow> (case map_of (zip (index df) col) t of None \<Rightarrow> None | Some c \<Rightarrow> c))"

definition loc_values :: "frame \<Rightarrow> timestamp list \<Rightarrow> string \<Rightarrow> cell list" where
  "loc_values df time_index var = map (value_at df var) time_index"

definition reindex_values :: "frame \<Rightarrow> timestamp list \<Rightarrow> string \<Rightarrow> cell list" where
  "reindex_values df time_index var =
     map (\<lambda>t. if t \<in> set (index df) then value_at df var t else None) time_index"

text \<open>A column of the two-dimensional array, read and written as a whole.\<close>

definition column :: "cell list list \<Rightarrow> nat \<Rightarrow> cell list" where
  "column var_array t_idx = map (\<lambda>row. row ! t_idx) var_array"

definition set_column :: "cell list list \<Rightarrow> nat \<Rightarrow> cell list \<Rightarrow> cell list list" where
  "set_column var_array t_idx col = map (\<lambda>(row, c). row[t_idx := c]) (zip var_array col)"

subsection \<open>Time-axis reconciliation (lines 829 to 851)\<close>

definition common_time_index ::
  "timestamp list \<Rightarrow> timestamp list list \<Rightarrow> timestamp list \<times> message list" where
  "common_time_index first rest =
     (if list_all (\<lambda>idx. equals idx first) (first # rest) then (first, [])
      else
        (let time_index = fold (\<lambda>idx time_index. intersection time_index idx) rest first
         in if length time_index = 0 then (first, [NoCommonTimes]) else (time_index, [])))"

subsection \<open>Interpolation of one time column (lines 883 to 926)\<close>

text \<open>The pairs \<^verbatim>\<open>(depths[i], values[i])\<close> collected at \<open>t_idx\<close>, in the order of \<open>var_data\<close>.\<close>

fun valid_readings :: "(rat \<times> cell list) list \<Rightarrow> nat \<Rightarrow> (rat \<times> rat) list" where
  "valid_readings [] t_idx = []"
| "valid_readings ((depth, dat) # rest) t_idx =
     (if t_idx < length dat \<and> dat ! t_idx \<noteq> None
      then (depth, the (dat ! t_idx)) # valid_readings rest t_idx
      else valid_readings rest t_idx)"

text \<open>The body of the loop over \<^verbatim>\<open>depth_points\<close>: the new content of one cell.\<close>

definition interp_cell :: "rat list \<Rightarrow> rat list \<Rightarrow> rat \<Rightarrow> cell \<Rightarrow> cell" where
  "interp_cell depths_sorted values_sorted depth old =
     (if depths_sorted ! 0 \<le> depth \<and> depth \<le> last depths_sorted then
        (let idx_above = searchsorted depths_sorted depth in
         if idx_above = 0 then Some (values_sorted ! 0)
         else if idx_above = length depths_sorted then Some (last values_sorted)
         else if depth = depths_sorted ! idx_above then Some (values_sorted ! idx_above)
         else
           (let idx_below = idx_above - 1;
                d_above = depths_sorted ! idx_above;
                d_below = depths_sorted ! idx_below;
                v_above = values_sorted ! idx_above;
                v_below = values_sorted ! idx_below;
                weight_above = (depth - d_below) / (d_above - d_below);
                weight_below = 1 - weight_above
            in Some (weight_below * v_below + weight_above * v_above)))
      else old)"

definition interp_column :: "rat list \<Rightarrow> (rat \<times> rat) list \<Rightarrow> cell list \<Rightarrow> cell list" where
  "interp_column depth_points readings col =
     (let depths = map fst readings; vals = map snd readings in
      if length depths \<ge> 2 then
        (let depth_sorted_indices = argsort depths;
             depths_sorted = map (\<lambda>i. depths ! i) depth_sorted_indices;
             values_sorted = map (\<lambda>i. vals ! i) depth_sorted_indices
         in map (\<lambda>(depth, old). interp_cell depths_sorted values_sorted depth old)
              (zip depth_points col))
      else if length depths = 1 then map (\<lambda>_. Some (vals ! 0)) col
      else col)"

text \<open>
  One pass of the loop over \<^verbatim>\<open>t_idx\<close>. The local variable \<^verbatim>\<open>depths\<close> is rebound
  in every pass and stays bound after the loop; \<open>None\<close> is the unbound variable.
\<close>

definition interp_time_point ::
  "(rat \<times> cell list) list \<Rightarrow> rat list \<Rightarrow> nat \<Rightarrow>
   cell list list \<times> rat list option \<Rightarrow> cell list list \<times> rat list option" where
  "interp_time_point var_data depth_points t_idx st =
     (let readings = valid_readings var_data t_idx;
          var_array = fst st
      in (set_column var_array t_idx
            (interp_column depth_points readings (column var_array t_idx)),
          Some (map fst readings)))"

subsection \<open>Boundary fill of one time column (lines 931 to 942)\<close>

definition fill_column :: "cell list \<Rightarrow> cell list" where
  "fill_column col =
     (let valid_depth_indices = filter (\<lambda>i. col ! i \<noteq> None) [0..<length col] in
      if length valid_depth_indices > 0 then
        (let min_valid_idx = hd valid_depth_indices;
             top_value = col ! min_valid_idx;
             col1 = replicate min_valid_idx top_value @ drop min_valid_idx col;
             max_valid_idx = last valid_depth_indices;
             bottom_value = col1 ! max_valid_idx
         in take (max_valid_idx + 1) col1
            @ replicate (length col1 - (max_valid_idx + 1)) bottom_value)
      else col)"

definition fill_time_point :: "nat \<Rightarrow> cell list list \<Rightarrow> cell list list" where
  "fill_time_point t_idx var_array =
     set_column var_array t_idx (fill_column (column var_array t_idx))"

subsection \<open>One variable (lines 860 to 948)\<close>

text \<open>
  \<^verbatim>\<open>var_data\<close>: for every sensor whose frame has the variable, its values aligned to
  the common time index, keyed by depth.
\<close>

definition align :: "frame \<Rightarrow> timestamp list \<Rightarrow> string \<Rightarrow> cell list" where
  "align df time_index var =
     (if list_all (\<lambda>idx. idx \<in> set (index df)) time_index
      then loc_values df time_index var
      else reindex_values df time_index var)"

definition extract_var_data ::
  "(rat \<times> frame) list \<Rightarrow> timestamp list \<Rightarrow> string \<Rightarrow> (rat \<times> cell list) list" where
  "extract_var_data registry time_index var =
     fold (\<lambda>(depth, df) var_data.
             if var \<in> set (map fst (columns df))
             then AList.update depth (align df time_index var) var_data
             else var_data)
       registry []"

type_synonym loop_state = "(string \<rightharpoonup> grid) \<times> message list \<times> rat list option"

definition interpolate_variable ::
  "(rat \<times> frame) list \<Rightarrow> timestamp list \<Rightarrow> rat list \<Rightarrow> bool \<Rightarrow> string \<Rightarrow>
   loop_state \<Rightarrow> error + loop_state" where
  "interpolate_variable registry time_index depth_points fill var st =
     (case st of (arrays, msgs, depths_var) \<Rightarrow>
      let var_array = replicate (length depth_points) (replicate (length time_index) None);
          var_data = extract_var_data registry time_index var
      in if var_data = [] then Inr (arrays, msgs @ [MissingVariable var], depths_var)
         else
           (let looped = fold (interp_time_point var_data depth_points)
                           [0..<length time_index] (var_array, depths_var);
                var_array1 = fst looped;
                depths_var1 = snd looped;
                store = (\<lambda>arr. arrays(var \<mapsto>
                          \<lparr>data = arr, depths = depth_points, times_axis = time_index\<rparr>))
            in if fill then
                 (case depths_var1 of
                    None \<Rightarrow> Inl UnboundLocalError
                  | Some bound_depths \<Rightarrow>
                      if bound_depths \<noteq> []
                      then Inr (store (fold fill_time_point [0..<length time_index] var_array1),
                                msgs, depths_var1)
                      else Inr (store var_array1, msgs, depths_var1))
               else Inr (store var_array1, msgs, depths_var1)))"

text \<open>The loop over the selected variables; an exception leaves it with the state reached.\<close>

fun interpolate_all ::
  "(rat \<times> frame) list \<Rightarrow> timestamp list \<Rightarrow> rat list \<Rightarrow> bool \<Rightarrow> string list \<Rightarrow>
   loop_state \<Rightarrow> error option \<times> loop_state" where
  "interpolate_all registry time_index depth_points fill [] st = (None, st)"
| "interpolate_all registry time_index depth_points fill (var # vars) st =
     (case interpolate_variable registry time_index depth_points fill var st of
        Inl e \<Rightarrow> (Some e, st)
      | Inr st' \<Rightarrow> interpolate_all registry time_index depth_points fill vars st')"

subsection \<open>The routine (lines 804 to 966)\<close>

text \<open>The variables whose check box is set (lines 817 to 820).\<close>

definition variables_to_interpolate :: "processor \<Rightarrow> string list" where
  "variables_to_interpolate self = map fst (filter snd (interp_var_checkboxes self))"

text \<open>The depth points (line 854): \<^verbatim>\<open>np.arange(0, max_depth + depth_res, depth_res)\<close>.\<close>

definition depth_axis :: "rat \<Rightarrow> rat \<Rightarrow> error + rat list" where
  "depth_axis depth_res max_d = arange 0 (max_d + depth_res) depth_res"

text \<open>The time indices of the sensors, in the order of the registry (lines 830 to 832).\<close>

definition time_indices :: "processor \<Rightarrow> timestamp list list" where
  "time_indices self = map (\<lambda>(depth, df). index df) (depth_arrays self)"

definition perform_interpolation :: "processor \<Rightarrow> processor" where
  "perform_interpolation self =
     (if depth_arrays self = [] then self\<lparr>messages := messages self @ [NoData]\<rparr>
      else
        (let depth_res = depth_resolution self;
             max_d = max_depth self;
             fill = fill_values self;
             vars = variables_to_interpolate self
         in if vars = []
            then self\<lparr>messages := messages self @ [NoVariables]\<rparr>
            else
              (let self1 = self\<lparr>interpolated_arrays := Map.empty\<rparr>
               in case time_indices self of
                    [] \<Rightarrow> self1\<lparr>messages := messages self1 @ [NoTimeIndex]\<rparr>
                  | first # rest \<Rightarrow>
                      (let common = common_time_index first rest;
                           time_index = fst common;
                           self2 = self1\<lparr>messages := messages self1 @ snd common\<rparr>
                       in case depth_axis depth_res max_d of
                            Inl e \<Rightarrow> self2\<lparr>messages := messages self2 @ [InterpolationError e]\<rparr>
                          | Inr depth_points \<Rightarrow>
                              (case interpolate_all (depth_arrays self) time_index depth_points
                                      fill vars
                                      (interpolated_arrays self2, messages self2, None) of
                                 (None, (arrays, msgs, depths_var)) \<Rightarrow>
                                   self2\<lparr>interpolated_arrays := arrays, messages := msgs\<rparr>
                               | (Some e, (arrays, msgs, depths_var)) \<Rightarrow>
                                   self2\<lparr>interpolated_arrays := arrays,
                                         messages := msgs @ [InterpolationError e]\<rparr>)))))"

subsection \<open>The column stored for a time index\<close>

text \<open>
  Notions used to state the results. The array of a variable has one row per depth point
  and one entry per timestamp in every row. The column stored at \<open>t_idx\<close> is the
  interpolation of the initial, all-missing column, followed by the boundary fill when the
  fill pass runs: when the option is set and the variable \<^verbatim>\<open>depths\<close>, bound by the last
  pass of the loop over the \<open>n\<close> timestamps, is not empty.
\<close>

definition shape :: "nat \<Rightarrow> nat \<Rightarrow> cell list list \<Rightarrow> bool" where
  "shape m n var_array \<longleftrightarrow> length var_array = m \<and> (\<forall>row\<in>set var_array. length row = n)"

definition interpolated_column :: "rat list \<Rightarrow> (rat \<times> rat) list \<Rightarrow> cell list" where
  "interpolated_column depth_points readings =
     interp_column depth_points readings (replicate (length depth_points) None)"

definition fill_pass_runs :: "bool \<Rightarrow> (rat \<times> cell list) list \<Rightarrow> nat \<Rightarrow> bool" where
  "fill_pass_runs fill var_data n \<longleftrightarrow> fill \<and> valid_readings var_data (n - 1) \<noteq> []"

definition final_column ::
  "rat list \<Rightarrow> (rat \<times> cell list) list \<Rightarrow> nat \<Rightarrow> bool \<Rightarrow> nat \<Rightarrow> cell list" where
  "final_column depth_points var_data n fill t_idx =
     (let col = interpolated_column depth_points (valid_readings var_data t_idx)
      in if fill_pass_runs fill var_data n then fill_column col else col)"

definition grid_of_run ::
  "(rat \<times> frame) list \<Rightarrow> timestamp list \<Rightarrow> rat list \<Rightarrow> bool \<Rightarrow> string \<Rightarrow> grid \<Rightarrow> bool" where
  "grid_of_run registry time_index depth_points fill var g \<longleftrightarrow>
     depths g = depth_points \<and> times_axis g = time_index
     \<and> shape (length depth_points) (length time_index) (data g)
     \<and> (\<forall>t_idx<length time_index.
           column (data g) t_idx
             = final_column depth_points (extract_var_data registry time_index var)
                 (length time_index) fill t_idx)"

text \<open>The common time index of a run (lines 835 to 848), as a function of the state.\<close>

definition run_time_index :: "processor \<Rightarrow> timestamp list" where
  "run_time_index self =
     (case time_indices self of [] \<Rightarrow> [] | first # rest \<Rightarrow> fst (common_time_index first rest))"

subsection \<open>Double arithmetic\<close>

text \<open>
  A finite double is a rational with a significand of 53 bits. \<open>round_double\<close> is the
  rounding that every arithmetic operation on doubles applies to its exact result: to the
  nearest double, to the one with an even significand on a tie. The exponent is not
  bounded: overflow to infinity and subnormal results are outside the model.
\<close>

definition round_half_even :: "rat \<Rightarrow> int" where
  "round_half_even x =
     (let f = \<lfloor>x\<rfloor>; r = x - of_int f
      in if r < 1 / 2 then f else if 1 / 2 < r then f + 1 else if even f then f else f + 1)"

text \<open>The exponent \<open>e\<close> of a number other than zero: \<open>2\<^sup>e \<le> \<bar>x\<bar> < 2\<^sup>e\<^sup>+\<^sup>1\<close>.\<close>

definition binary_exponent :: "rat \<Rightarrow> int" where
  "binary_exponent x =
     (let e = bitlen (fst (quotient_of \<bar>x\<bar>)) - bitlen (snd (quotient_of \<bar>x\<bar>))
      in if 2 powi e \<le> \<bar>x\<bar> then e else e - 1)"

definition round_double :: "rat \<Rightarrow> rat" where
  "round_double x =
     (if x = 0 then 0
      else (let s = 2 powi (52 - binary_exponent x)
            in of_int (round_half_even (x * s)) / s))"

text \<open>The double nearest to one tenth.\<close>

definition tenth :: rat where
  "tenth = 3602879701896397 / 2 ^ 55"

text \<open>
  \<^verbatim>\<open>np.arange(start, stop, step)\<close> with a rounding \<open>rnd\<close> after each operation: the
  number of points is the ceiling of the rounded quotient, and the point of index \<open>i\<close>
  is \<^verbatim>\<open>start + i * step\<close>.
\<close>

definition arange_rounded :: "(rat \<Rightarrow> rat) \<Rightarrow> rat \<Rightarrow> rat \<Rightarrow> rat \<Rightarrow> error + rat list" where
  "arange_rounded rnd start stop step =
     (if step = 0 then Inl ZeroDivisionError
      else
        (let n = \<lceil>rnd (rnd (stop - start) / step)\<rceil>
         in if n < - (2 ^ 63) \<or> 2 ^ 63 < n then Inl OverflowError
            else Inr (map (\<lambda>i. rnd (start + rnd (of_nat i * step))) [0..<nat n])))"

text \<open>Line 854 on doubles: the stop value \<^verbatim>\<open>max_depth + depth_res\<close> is itself rounded.\<close>

definition depth_axis_rounded :: "(rat \<Rightarrow> rat) \<Rightarrow> rat \<Rightarrow> rat \<Rightarrow> error + rat list" where
  "depth_axis_rounded rnd depth_res max_d = arange_rounded rnd 0 (rnd (max_d + depth_res)) depth_res"

text \<open>
  Lines 898 to 923 on doubles: the comparisons are exact, the differences, the quotient,
  the two products and the sum of the blend are rounded.
\<close>

definition interp_cell_rounded ::
  "(rat \<Rightarrow> rat) \<Rightarrow> rat list \<Rightarrow> rat list \<Rightarrow> rat \<Rightarrow> cell \<Rightarrow> cell" where
  "interp_cell_rounded rnd depths_sorted values_sorted depth old =
     (if depths_sorted ! 0 \<le> depth \<and> depth \<le> last depths_sorted then
        (let idx_above = searchsorted depths_sorted depth in
         if idx_above = 0 then Some (values_sorted ! 0)
         else if idx_above = length depths_sorted then Some (last values_sorted)
         else if depth = depths_sorted ! idx_above then Some (values_sorted ! idx_above)
         else
           (let idx_below = idx_above - 1;
                d_above = depths_sorted ! idx_above;
                d_below = depths_sorted ! idx_below;
                v_above = values_sorted ! idx_above;
                v_below = values_sorted ! idx_below;
                weight_above = rnd (rnd (depth - d_below) / rnd (d_above - d_below));
                weight_below = rnd (1 - weight_above)
            in Some (rnd (rnd (weight_below * v_below) + rnd (weight_above * v_above)))))
      else old)"

definition interp_column_rounded ::
  "(rat \<Rightarrow> rat) \<Rightarrow> rat list \<Rightarrow> (rat \<times> rat) list \<Rightarrow> cell list \<Rightarrow> cell list" where
  "interp_column_rounded rnd depth_points readings col =
     (let depths = map fst readings; vals = map snd readings in
      if length depths \<ge> 2 then
        (let depth_sorted_indices = argsort depths;
             depths_sorted = map (\<lambda>i. depths ! i) depth_sorted_indices;
             values_sorted = map (\<lambda>i. vals ! i) depth_sorted_indices
         in map (\<lambda>(depth, old). interp_cell_rounded rnd depths_sorted values_sorted depth old)
              (zip depth_points col))
      else if length depths = 1 then map (\<lambda>_. Some (vals ! 0)) col
      else col)"

text \<open>
  The column stored at \<open>t_idx\<close> when the blend is computed on doubles: as
  \<open>final_column\<close>, with the rounded interpolation in place of the exact one.
\<close>

definition interpolated_column_rounded ::
  "(rat \<Rightarrow> rat) \<Rightarrow> rat list \<Rightarrow> (rat \<times> rat) list \<Rightarrow> cell list" where
  "interpolated_column_rounded rnd depth_points readings =
     interp_column_rounded rnd depth_points readings (replicate (length depth_points) None)"

definition final_column_rounded ::
  "(rat \<Rightarrow> rat) \<Rightarrow> rat list \<Rightarrow> (rat \<times> cell list) list \<Rightarrow> nat \<Rightarrow> bool \<Rightarrow> nat \<Rightarrow> cell list" where
  "final_column_rounded rnd depth_points var_data n fill t_idx =
     (let col = interpolated_column_rounded rnd depth_points (valid_readings var_data t_idx)
      in if fill_pass_runs fill var_data n then fill_column col else col)"

subsection \<open>Example inputs\<close>

text \<open>
  Concrete registries and configurations at which the theorems below are evaluated: every
  sensor frame has the one variable \<open>temp\<close>, and that variable is selected.
\<close>

definition sensor :: "timestamp list \<Rightarrow> cell list \<Rightarrow> frame" where
  "sensor ix vs = \<lparr>index = ix, columns = [(''temp'', vs)]\<rparr>"

definition example_processor :: "rat \<Rightarrow> rat \<Rightarrow> bool \<Rightarrow> (rat \<times> frame) list \<Rightarrow> processor" where
  "example_processor depth_res max_d fill registry =
     \<lparr>depth_arrays = registry, depth_resolution = depth_res, max_depth = max_d,
      fill_values = fill, interp_var_checkboxes = [(''temp'', True)],
      interpolated_arrays = Map.empty, messages = []\<rparr>"




definition stale_depths_input :: processor where
  "stale_depths_input =
     example_processor 1 6 True
       [(1, sensor [0, 1] [Some 2, None]), (5, sensor [0, 1] [Some 6, None])]"

definition scenario_input :: processor where
  "scenario_input =
     example_processor 1 11 True
       [(1, sensor [0, 1, 2] [None, None, Some 2]),
        (5, sensor [0, 1, 2] [None, Some 7, Some 6]),
        (10, sensor [0, 1, 2] [None, None, Some 16])]"

definition scenario_grid :: grid where
  "scenario_grid =
     \<lparr>data =
        [[None, Some 7, Some 2], [None, Some 7, Some 2], [None, Some 7, Some 3],
         [None, Some 7, Some 4], [None, Some 7, Some 5], [None, Some 7, Some 6],
         [None, Some 7, Some 8], [None, Some 7, Some 10], [None, Some 7, Some 12],
         [None, Some 7, Some 14], [None, Some 7, Some 16], [None, Some 7, Some 16]],
      depths = [0, 1, 2, 3, 4, 5, 6, 7, 8, 9, 10, 11],
      times_axis = [0, 1, 2]\<rparr>"

definition stale_depths_grid :: grid where
  "stale_depths_grid =
     \<lparr>data = [[None, None], [Some 2, None], [Some 3, None], [Some 4, None],
              [Some 5, None], [Some 6, None], [None, None]],
      depths = [0, 1, 2, 3, 4, 5, 6], times_axis = [0, 1]\<rparr>"

definition scenario_rerun_input :: processor where
  "scenario_rerun_input =
     scenario_input\<lparr>interpolated_arrays := [''old'' \<mapsto> stale_depths_grid],
                    messages := [NoData, MissingVariable ''old'']\<rparr>"


definition equal_readings_input :: processor where
  "equal_readings_input =
     example_processor 1 5 True [(0, sensor [0] [Some 3]), (5, sensor [0] [Some 3])]"

section \<open>Verified properties\<close>

subsection \<open>The depth axis\<close>

lemma depth_axis_cases:
  "depth_axis depth_res max_d =
     (if depth_res = 0 then Inl ZeroDivisionError
      else if \<lceil>max_d / depth_res\<rceil> + 1 < - (2 ^ 63) \<or> 2 ^ 63 < \<lceil>max_d / depth_res\<rceil> + 1
      then Inl OverflowError
      else Inr (map (\<lambda>i. of_nat i * depth_res) [0..<nat (\<lceil>max_d / depth_res\<rceil> + 1)]))"
proof (cases "depth_res = 0")
  case True
  then show ?thesis by (simp add: depth_axis_def arange_def)
next
  case False
  then have "(max_d + depth_res) / depth_res = max_d / depth_res + 1"
    by (simp add: add_divide_distrib)
  then show ?thesis
    using False by (simp add: depth_axis_def arange_def Let_def)
qed

lemma depth_axis_points:
  assumes "depth_axis depth_res max_d = Inr pts"
  shows "depth_res \<noteq> 0"
    and "pts = map (\<lambda>i. of_nat i * depth_res) [0..<nat (\<lceil>max_d / depth_res\<rceil> + 1)]"
  using assms by (simp_all add: depth_axis_cases split: if_splits)

subsection \<open>The rounding error of a double\<close>

lemma round_half_even_error: "\<bar>of_int (round_half_even x) - x\<bar> \<le> 1 / 2"
proof -
  define f where "f = \<lfloor>x\<rfloor>"
  define r where "r = x - of_int f"
  have r: "0 \<le> r" "r < 1" unfolding r_def f_def by linarith+
  have x: "x = of_int f + r" by (simp add: r_def)
  have rf: "round_half_even x
      = (if r < 1 / 2 then f else if 1 / 2 < r then f + 1 else if even f then f else f + 1)"
    unfolding r_def f_def round_half_even_def Let_def ..
  have d0: "round_half_even x = f \<Longrightarrow> of_int (round_half_even x) - x = - r"
    and d1: "round_half_even x = f + 1 \<Longrightarrow> of_int (round_half_even x) - x = 1 - r"
    by (simp_all add: r_def)
  consider "r < 1 / 2" | "1 / 2 < r" | "r = 1 / 2" by linarith
  then show ?thesis
  proof cases
    case 1
    then have "round_half_even x = f" using rf by simp
    from d0[OF this] show ?thesis using r 1 by simp
  next
    case 2
    then have "\<not> r < 1 / 2" by simp
    then have "round_half_even x = f + 1" using rf 2 by (simp only: if_False if_True)
    from d1[OF this] show ?thesis using r 2 by simp
  next
    case 3
    then have "round_half_even x = f \<or> round_half_even x = f + 1" using rf by simp
    then show ?thesis
    proof
      assume "round_half_even x = f"
      from d0[OF this] show ?thesis using 3 by simp
    next
      assume "round_half_even x = f + 1"
      from d1[OF this] show ?thesis using 3 by simp
    qed
  qed
qed

lemma bitlen_power_bounds:
  assumes "0 < (p::int)"
  shows "(2::rat) powi (bitlen p - 1) \<le> of_int p" and "of_int p < (2::rat) powi bitlen p"
proof -
  have b: "2 ^ nat (bitlen p - 1) \<le> p" "p < 2 ^ nat (bitlen p)"
    using bitlen_bounds[OF assms] by simp_all
  have ge1: "1 \<le> bitlen p"
  proof (rule ccontr)
    assume "\<not> 1 \<le> bitlen p"
    then have "bitlen p \<le> 0" by simp
    then have "nat (bitlen p) = 0" by simp
    then show False using b(2) assms by simp
  qed
  have "(2::rat) powi (bitlen p - 1) = 2 ^ nat (bitlen p - 1)"
    using ge1 by (simp add: power_int_def)
  also have "\<dots> = of_int (2 ^ nat (bitlen p - 1))" by simp
  also have "\<dots> \<le> of_int p" using b(1) by (simp only: of_int_le_iff)
  finally show "(2::rat) powi (bitlen p - 1) \<le> of_int p" .
  have "of_int p < (of_int (2 ^ nat (bitlen p)) :: rat)" using b(2) by (simp only: of_int_less_iff)
  also have "\<dots> = 2 ^ nat (bitlen p)" by simp
  also have "\<dots> = (2::rat) powi bitlen p" using ge1 by (simp add: power_int_def)
  finally show "of_int p < (2::rat) powi bitlen p" .
qed

lemma binary_exponent_bounds:
  assumes "x \<noteq> 0"
  shows "2 powi binary_exponent x \<le> \<bar>x\<bar>" and "\<bar>x\<bar> < 2 powi (binary_exponent x + 1)"
proof -
  define p where "p = fst (quotient_of \<bar>x\<bar>)"
  define q where "q = snd (quotient_of \<bar>x\<bar>)"
  define e where "e = bitlen p - bitlen q"
  have q0: "0 < q" unfolding q_def by (rule quotient_of_denom_pos')
  have ax: "\<bar>x\<bar> = of_int p / of_int q"
    using quotient_of_div[of "\<bar>x\<bar>" p q] by (simp add: p_def q_def)
  have "0 < \<bar>x\<bar>" using assms by simp
  then have "0 < (of_int p :: rat)" using ax q0 by (simp add: zero_less_divide_iff)
  then have p0: "0 < p" by simp
  note P = bitlen_power_bounds[OF p0]
  note Q = bitlen_power_bounds[OF q0]
  have qq: "0 < (of_int q :: rat)" using q0 by simp
  have "of_int p / of_int q < (2::rat) powi bitlen p / 2 powi (bitlen q - 1)"
  proof -
    have "of_int p / of_int q < (2::rat) powi bitlen p / of_int q"
      using P(2) qq by (simp add: divide_strict_right_mono)
    also have "\<dots> \<le> 2 powi bitlen p / 2 powi (bitlen q - 1)"
      using Q(1) qq by (intro divide_left_mono mult_pos_pos) simp_all
    finally show ?thesis .
  qed
  also have "\<dots> = 2 powi (bitlen p - (bitlen q - 1))"
    by (rule power_int_diff[symmetric]) simp
  also have "bitlen p - (bitlen q - 1) = e + 1" by (simp add: e_def)
  finally have upper: "\<bar>x\<bar> < 2 powi (e + 1)" using ax by simp
  have "e - 1 = (bitlen p - 1) - bitlen q" by (simp add: e_def)
  then have "(2::rat) powi (e - 1) = 2 powi ((bitlen p - 1) - bitlen q)" by (simp only:)
  also have "\<dots> = 2 powi (bitlen p - 1) / 2 powi bitlen q"
    by (rule power_int_diff) simp
  also have "\<dots> \<le> of_int p / 2 powi bitlen q"
    using P(1) by (intro divide_right_mono) simp_all
  also have "\<dots> \<le> of_int p / of_int q"
    using Q(2) p0 qq by (intro divide_left_mono mult_pos_pos) simp_all
  finally have lower: "2 powi (e - 1) \<le> \<bar>x\<bar>" using ax by simp
  have be: "binary_exponent x = (if 2 powi e \<le> \<bar>x\<bar> then e else e - 1)"
    by (simp add: binary_exponent_def Let_def e_def p_def q_def)
  show "2 powi binary_exponent x \<le> \<bar>x\<bar>" using be lower by auto
  show "\<bar>x\<bar> < 2 powi (binary_exponent x + 1)" using be upper by auto
qed

lemma round_double_error: "\<bar>round_double x - x\<bar> \<le> \<bar>x\<bar> / 2 ^ 53"
proof (cases "x = 0")
  case True
  then show ?thesis by (simp add: round_double_def)
next
  case False
  define e where "e = binary_exponent x"
  define s :: rat where "s = 2 powi (52 - e)"
  define m where "m = x * s"
  have s0: "0 < s" by (simp add: s_def)
  have rd: "round_double x = of_int (round_half_even m) / s"
    using False by (simp add: round_double_def Let_def e_def s_def m_def)
  have "round_double x - x = (of_int (round_half_even m) - m) / s"
    using s0 by (simp add: rd m_def diff_divide_distrib)
  then have "\<bar>round_double x - x\<bar> = \<bar>of_int (round_half_even m) - m\<bar> / s"
    using s0 by (simp add: abs_divide)
  also have "\<dots> \<le> (1 / 2) / s"
    using round_half_even_error[of m] s0 by (intro divide_right_mono) simp_all
  finally have err: "\<bar>round_double x - x\<bar> \<le> (1 / 2) / s" .
  have "2 powi e * s \<le> \<bar>x\<bar> * s"
    using binary_exponent_bounds(1)[OF False] s0 by (simp add: e_def)
  moreover have "2 powi e * s = (2::rat) ^ 52"
  proof -
    have "(2::rat) powi (e + (52 - e)) = 2 powi e * 2 powi (52 - e)"
      by (rule power_int_add) simp
    moreover have "e + (52 - e) = 52" by simp
    moreover have "(2::rat) powi 52 = 2 ^ 52" by simp
    ultimately show ?thesis by (simp only: s_def)
  qed
  ultimately have "(2::rat) ^ 52 \<le> \<bar>x\<bar> * s" by simp
  then have "(2::rat) ^ 52 / s \<le> \<bar>x\<bar>" using s0 by (simp add: pos_divide_le_eq)
  then have "((2::rat) ^ 52 / s) / 2 ^ 53 \<le> \<bar>x\<bar> / 2 ^ 53"
    by (intro divide_right_mono) simp_all
  moreover have "((2::rat) ^ 52 / s) / 2 ^ 53 = (1 / 2) / s" by simp
  ultimately show ?thesis using err by simp
qed

subsection \<open>The depth axis on doubles\<close>

lemma depth_axis_rounded_cases:
  "depth_axis_rounded rnd depth_res max_d =
     (if depth_res = 0 then Inl ZeroDivisionError
      else if \<lceil>rnd (rnd (rnd (max_d + depth_res)) / depth_res)\<rceil> < - (2 ^ 63)
              \<or> 2 ^ 63 < \<lceil>rnd (rnd (rnd (max_d + depth_res)) / depth_res)\<rceil>
      then Inl OverflowError
      else Inr (map (\<lambda>i. rnd (rnd (of_nat i * depth_res)))
                  [0..<nat \<lceil>rnd (rnd (rnd (max_d + depth_res)) / depth_res)\<rceil>]))"
  by (simp add: depth_axis_rounded_def arange_rounded_def Let_def)

lemma depth_axis_rounded_exact: "depth_axis_rounded (\<lambda>x. x) depth_res max_d = depth_axis depth_res max_d"
proof (cases "depth_res = 0")
  case True
  then show ?thesis by (simp add: depth_axis_rounded_cases depth_axis_cases)
next
  case False
  then have "(max_d + depth_res) / depth_res = max_d / depth_res + 1"
    by (simp add: add_divide_distrib)
  then show ?thesis using False by (simp add: depth_axis_rounded_cases depth_axis_cases)
qed

lemma rounding_interval:
  assumes "\<forall>x. \<bar>rnd x - x\<bar> \<le> u * \<bar>x\<bar>" and "0 \<le> (y::rat)"
  shows "(1 - u) * y \<le> rnd y" and "rnd y \<le> (1 + u) * y"
proof -
  have "\<bar>rnd y - y\<bar> \<le> u * y" using assms by (metis abs_of_nonneg)
  then have "- (u * y) \<le> rnd y - y" "rnd y - y \<le> u * y" by (simp_all add: abs_le_iff)
  then show "(1 - u) * y \<le> rnd y" "rnd y \<le> (1 + u) * y" by (simp_all add: algebra_simps)
qed

lemma rounded_quotient_bounds:
  assumes err: "\<forall>x. \<bar>rnd x - x\<bar> \<le> u * \<bar>x\<bar>" and u: "0 \<le> u" "u \<le> 1"
    and x: "0 \<le> (x::rat)" and d: "0 < d"
  shows "(1 - u) ^ 3 * (x / d) \<le> rnd (rnd (rnd x) / d)"
    and "rnd (rnd (rnd x) / d) \<le> (1 + u) ^ 3 * (x / d)"
proof -
  have m: "0 \<le> 1 - u" "0 \<le> 1 + u" using u by simp_all
  note r1 = rounding_interval[OF err x]
  have a1: "0 \<le> rnd x" using r1(1) m(1) x by (meson mult_nonneg_nonneg order_trans)
  note r2 = rounding_interval[OF err a1]
  have a2: "0 \<le> rnd (rnd x)" using r2(1) m(1) a1 by (meson mult_nonneg_nonneg order_trans)
  have q: "0 \<le> rnd (rnd x) / d" using a2 d by simp
  note r3 = rounding_interval[OF err q]
  have lo2: "(1 - u) * ((1 - u) * x) \<le> rnd (rnd x)"
  proof -
    have "(1 - u) * ((1 - u) * x) \<le> (1 - u) * rnd x" using r1(1) m(1) by (rule mult_left_mono)
    then show ?thesis using r2(1) by simp
  qed
  have hi2: "rnd (rnd x) \<le> (1 + u) * ((1 + u) * x)"
  proof -
    have "(1 + u) * rnd x \<le> (1 + u) * ((1 + u) * x)" using r1(2) m(2) by (rule mult_left_mono)
    then show ?thesis using r2(2) by simp
  qed
  have "(1 - u) * ((1 - u) * ((1 - u) * x) / d) \<le> (1 - u) * (rnd (rnd x) / d)"
    using lo2 d m(1) by (intro mult_left_mono divide_right_mono) simp_all
  then have A: "(1 - u) * ((1 - u) * ((1 - u) * x) / d) \<le> rnd (rnd (rnd x) / d)"
    using r3(1) by (rule order_trans)
  have eqA: "(1 - u) * ((1 - u) * ((1 - u) * x) / d) = (1 - u) ^ 3 * (x / d)"
    by (simp add: power3_eq_cube)
  show "(1 - u) ^ 3 * (x / d) \<le> rnd (rnd (rnd x) / d)" using A[unfolded eqA] .
  have "(1 + u) * (rnd (rnd x) / d) \<le> (1 + u) * ((1 + u) * ((1 + u) * x) / d)"
    using hi2 d m(2) by (intro mult_left_mono divide_right_mono) simp_all
  then have B: "rnd (rnd (rnd x) / d) \<le> (1 + u) * ((1 + u) * ((1 + u) * x) / d)"
    using r3(2) by (meson order_trans)
  have eqB: "(1 + u) * ((1 + u) * ((1 + u) * x) / d) = (1 + u) ^ 3 * (x / d)"
    by (simp add: power3_eq_cube)
  show "rnd (rnd (rnd x) / d) \<le> (1 + u) ^ 3 * (x / d)" using B[unfolded eqB] .
qed

lemma cube_bounds:
  assumes "0 \<le> (u::rat)" and "u \<le> 1"
  shows "3 * u \<le> (1 + u) ^ 3 - 1" and "1 - ((1 + u) ^ 3 - 1) \<le> (1 - u) ^ 3"
proof -
  have e1: "(1 + u) ^ 3 - 1 = 3 * u + u * u * (3 + u)"
    by (simp add: power3_eq_cube algebra_simps)
  have e2: "(1 - u) ^ 3 = 1 - 3 * u + u * u * (3 - u)"
    by (simp add: power3_eq_cube algebra_simps)
  have p1: "0 \<le> u * u * (3 + u)" using assms by simp
  have p2: "0 \<le> u * u * (3 - u)" using assms by simp
  show "3 * u \<le> (1 + u) ^ 3 - 1" using e1 p1 by simp
  show "1 - ((1 + u) ^ 3 - 1) \<le> (1 - u) ^ 3" using e1 e2 p1 p2 by simp
qed

lemma cube_excess: "0 \<le> (u::rat) \<Longrightarrow> 3 * u \<le> (1 + u) ^ 3 - 1"
proof -
  assume u: "0 \<le> u"
  have "(1 + u) ^ 3 - 1 = 3 * u + u * u * (3 + u)"
    by (simp add: power3_eq_cube algebra_simps)
  moreover have "0 \<le> u * u * (3 + u)" using u by simp
  ultimately show ?thesis by simp
qed

lemma round_double_relative_error: "\<forall>x. \<bar>round_double x - x\<bar> \<le> (1 / 2 ^ 53) * \<bar>x\<bar>"
  using round_double_error by simp

text \<open>
  Claim C7, as stated, fails on doubles. With the resolution 0.1 and the maximum depth 0.2,
  which is twice the resolution exactly, the stop value \<^verbatim>\<open>0.2 + 0.1\<close> is rounded up to
  0.30000000000000004 and its quotient by the resolution to 3.0000000000000004, so the
  axis has four points, not \<open>\<lfloor>max_depth / \<Delta>d\<rfloor> + 1 = 3\<close>, and the last one lies beyond
  the maximum depth although the maximum depth is a multiple of the resolution.
\<close>

theorem depth_axis_length_counterexample:
  "round_double (1 / 10) = tenth \<and> round_double (2 / 10) = 2 * tenth
   \<and> 2 * tenth / tenth = 2
   \<and> depth_axis_rounded round_double tenth (2 * tenth)
       = Inr [0, tenth, 2 * tenth, 5404319552844596 / 2 ^ 54]
   \<and> length [0, tenth, 2 * tenth, 5404319552844596 / 2 ^ 54] \<noteq> nat \<lfloor>2 * tenth / tenth\<rfloor> + 1
   \<and> 2 * tenth < 5404319552844596 / 2 ^ 54"
  by code_simp

text \<open>
  Claim C7, amended: let every operation round with a relative error of at most \<open>u\<close>
  (\<open>u = 2\<^sup>-\<^sup>5\<^sup>3\<close> for doubles), let the resolution \<open>\<Delta>d\<close> be above zero and the maximum
  depth at least zero, with \<open>(max_depth / \<Delta>d + 2) ((1 + u)\<^sup>3 - 1) < 1\<close> and
  \<open>max_depth / \<Delta>d + 3 \<le> 2\<^sup>6\<^sup>3\<close>. Then the depth axis is built, its point of index \<open>i\<close> is
  the rounded product \<open>i \<Delta>d\<close>, and its length is the ceiling of the rounded quotient
  \<^verbatim>\<open>(max_depth + depth_res) / depth_res\<close>, which is at least \<open>\<lfloor>max_depth / \<Delta>d\<rfloor> + 1\<close> and
  at most \<open>\<lfloor>max_depth / \<Delta>d\<rfloor> + 3\<close>. When the sum \<^verbatim>\<open>max_depth + depth_res\<close> and its quotient
  by the resolution are computed without rounding error, the length is
  \<open>\<lfloor>max_depth / \<Delta>d\<rfloor> + 1\<close> with the last point at the maximum depth if the maximum depth is
  a multiple of the resolution, and \<open>\<lfloor>max_depth / \<Delta>d\<rfloor> + 2\<close> otherwise, the last point alone
  lying beyond the maximum depth.
\<close>

theorem depth_axis_length:
  assumes "0 < depth_res" and "0 \<le> max_d"
    and "\<forall>x. \<bar>rnd x - x\<bar> \<le> u * \<bar>x\<bar>" and "0 \<le> u"
    and "(max_d / depth_res + 2) * ((1 + u) ^ 3 - 1) < 1"
    and "max_d / depth_res + 3 \<le> 2 ^ 63"
  shows "\<exists>pts. depth_axis_rounded rnd depth_res max_d = Inr pts
     \<and> length pts = nat \<lceil>rnd (rnd (rnd (max_d + depth_res)) / depth_res)\<rceil>
     \<and> (\<forall>i<length pts. pts ! i = rnd (rnd (of_nat i * depth_res)))
     \<and> nat \<lfloor>max_d / depth_res\<rfloor> + 1 \<le> length pts
     \<and> length pts \<le> nat \<lfloor>max_d / depth_res\<rfloor> + 3
     \<and> (rnd (max_d + depth_res) = max_d + depth_res
          \<and> rnd ((max_d + depth_res) / depth_res) = (max_d + depth_res) / depth_res
        \<longrightarrow> (if max_d / depth_res \<in> \<int>
             then length pts = nat \<lfloor>max_d / depth_res\<rfloor> + 1
                  \<and> of_nat (length pts - 1) * depth_res = max_d
             else length pts = nat \<lfloor>max_d / depth_res\<rfloor> + 2
                  \<and> max_d < of_nat (length pts - 1) * depth_res
                  \<and> (\<forall>i<length pts - 1. of_nat i * depth_res < max_d)))"
proof -
  define q where "q = max_d / depth_res"
  define k where "k = \<lfloor>q\<rfloor>"
  define eps where "eps = (1 + u) ^ 3 - 1"
  define a where "a = rnd (rnd (rnd (max_d + depth_res)) / depth_res)"
  define n where "n = \<lceil>a\<rceil>"
  define pts where "pts = map (\<lambda>i. rnd (rnd (of_nat i * depth_res))) [0..<nat n]"
  have q0: "0 \<le> q" using assms(1,2) by (simp add: q_def)
  have k0: "0 \<le> k" using q0 by (simp add: k_def)
  have kq: "of_int k \<le> q" "q < of_int k + 1"
    using floor_correct[of q] by (simp_all add: k_def)
  have md: "max_d = q * depth_res" using assms(1) by (simp add: q_def)
  have qp: "(max_d + depth_res) / depth_res = q + 1"
    using assms(1) by (simp add: q_def add_divide_distrib)
  have e3: "3 * u \<le> eps" unfolding eps_def by (rule cube_excess[OF assms(4)])
  then have e0: "0 \<le> eps" using assms(4) by simp
  have small: "(q + 2) * eps < 1" using assms(5) by (simp add: q_def eps_def)
  have "2 * eps \<le> (q + 2) * eps" using q0 e0 by (intro mult_right_mono) simp_all
  then have "eps < 1 / 2" using small by simp
  then have u1: "u \<le> 1" using e3 by simp
  have e1: "(q + 1) * eps < 1"
  proof -
    have "(q + 1) * eps \<le> (q + 2) * eps" using e0 by (intro mult_right_mono) simp_all
    then show ?thesis using small by simp
  qed
  have x0: "0 \<le> max_d + depth_res" using assms(1,2) by simp
  note B = rounded_quotient_bounds[OF assms(3,4) u1 x0 assms(1)]
  have lo_cube: "1 - eps \<le> (1 - u) ^ 3"
  proof -
    have "(1 - u) ^ 3 = 1 - 3 * u + u * u * (3 - u)"
      by (simp add: power3_eq_cube algebra_simps)
    moreover have "0 \<le> u * u * (3 - u)" using assms(4) u1 by simp
    ultimately show ?thesis using e3 by simp
  qed
  have "(1 - eps) * (q + 1) \<le> (1 - u) ^ 3 * (q + 1)"
    using lo_cube q0 by (intro mult_right_mono) simp_all
  then have "(1 - eps) * (q + 1) \<le> a" using B(1) by (simp add: a_def qp)
  moreover have "(1 - eps) * (q + 1) = q + 1 - (q + 1) * eps" by (simp add: algebra_simps)
  ultimately have lower: "q < a" using e1 by simp
  have "a \<le> (1 + u) ^ 3 * (q + 1)" using B(2) by (simp add: a_def qp)
  moreover have "(1 + u) ^ 3 * (q + 1) = q + 1 + (q + 1) * eps"
    by (simp add: eps_def algebra_simps)
  ultimately have upper: "a < q + 2" using e1 by simp
  have "of_int k < a" using kq(1) lower by simp
  then have "k < \<lceil>a\<rceil>" by (simp only: less_ceiling_iff)
  then have nk1: "k + 1 \<le> n" by (simp add: n_def)
  have "a \<le> of_int (k + 3)" using upper kq(2) by simp
  then have nk3: "n \<le> k + 3" unfolding n_def by (simp only: ceiling_le_iff)
  have "of_int n \<le> (of_int (k + 3) :: rat)" using nk3 by (simp only: of_int_le_iff)
  also have "\<dots> \<le> q + 3" using kq(1) by simp
  also have "\<dots> \<le> 2 ^ 63" using assms(6) by (simp add: q_def)
  finally have "of_int n \<le> (of_int (2 ^ 63) :: rat)" by simp
  then have range: "n \<le> 2 ^ 63" by (simp only: of_int_le_iff)
  have n0: "0 \<le> n" using nk1 k0 by simp
  have ax: "depth_axis_rounded rnd depth_res max_d = Inr pts"
    using assms(1) range n0
    by (simp add: depth_axis_rounded_cases pts_def n_def a_def)
  have len: "length pts = nat n" by (simp add: pts_def)
  have nth: "\<forall>i<length pts. pts ! i = rnd (rnd (of_nat i * depth_res))" by (simp add: pts_def)
  have lb: "nat k + 1 \<le> length pts" using len nk1 k0 by simp
  have ub: "length pts \<le> nat k + 3" using len nk3 k0 by simp
  have exact: "if q \<in> \<int>
             then length pts = nat k + 1 \<and> of_nat (length pts - 1) * depth_res = max_d
             else length pts = nat k + 2 \<and> max_d < of_nat (length pts - 1) * depth_res
                  \<and> (\<forall>i<length pts - 1. of_nat i * depth_res < max_d)"
    if ex: "rnd (max_d + depth_res) = max_d + depth_res"
           "rnd ((max_d + depth_res) / depth_res) = (max_d + depth_res) / depth_res"
  proof -
    have "rnd (rnd (max_d + depth_res)) = max_d + depth_res" by (simp only: ex(1))
    then have "a = rnd ((max_d + depth_res) / depth_res)" by (simp only: a_def ex(1))
    then have "a = rnd (q + 1)" by (simp only: qp)
    moreover have "rnd (q + 1) = q + 1" using ex(2) by (simp only: qp)
    ultimately have "a = q + 1" by (simp only:)
    then have nq: "n = \<lceil>q\<rceil> + 1" by (simp add: n_def)
    show ?thesis
    proof (cases "q \<in> \<int>")
      case True
      then have cf: "\<lceil>q\<rceil> = k" and oc: "of_int k = q"
        by (auto simp: k_def elim!: Ints_cases)
      have l: "length pts = nat k + 1" using len nq cf k0 by (simp add: nat_add_distrib)
      have "of_nat (nat k) * depth_res = max_d" using k0 oc md by simp
      then show ?thesis using True l by simp
    next
      case False
      then have "q \<noteq> of_int \<lfloor>q\<rfloor>" by (metis Ints_of_int)
      then have cf: "\<lceil>q\<rceil> = k + 1" by (simp add: ceiling_altdef k_def)
      have l: "length pts = nat k + 2" using len nq cf k0 by (simp add: nat_add_distrib)
      have "q < of_int (k + 1)" using kq(2) by simp
      then have "q * depth_res < of_int (k + 1) * depth_res" using assms(1) by simp
      moreover have "(of_nat (nat k + 1) :: rat) = of_int (k + 1)" using k0 by simp
      ultimately have "max_d < of_nat (nat k + 1) * depth_res"
        using md by (simp only:)
      moreover have "length pts - 1 = nat k + 1" using l by simp
      ultimately have l1: "max_d < of_nat (length pts - 1) * depth_res"
        by (simp only:)
      have l2: "\<forall>i<length pts - 1. of_nat i * depth_res < max_d"
      proof (intro allI impI)
        fix i assume "i < length pts - 1"
        then have "int i \<le> k" using l k0 by simp
        then have "(of_int (int i) :: rat) \<le> of_int k" by (simp only: of_int_le_iff)
        then have "of_int (int i) \<le> q" using kq(1) by simp
        moreover have "of_int (int i) \<noteq> q" using False by (metis Ints_of_int)
        ultimately have "of_nat i < q" by simp
        then have "of_nat i * depth_res < q * depth_res" using assms(1) by simp
        then show "of_nat i * depth_res < max_d" using md by simp
      qed
      show ?thesis using False l l1 l2 by simp
    qed
  qed
  have len': "length pts = nat \<lceil>rnd (rnd (rnd (max_d + depth_res)) / depth_res)\<rceil>"
    using len by (simp only: n_def a_def)
  have ex': "rnd (max_d + depth_res) = max_d + depth_res
          \<and> rnd ((max_d + depth_res) / depth_res) = (max_d + depth_res) / depth_res
        \<longrightarrow> (if max_d / depth_res \<in> \<int>
             then length pts = nat \<lfloor>max_d / depth_res\<rfloor> + 1
                  \<and> of_nat (length pts - 1) * depth_res = max_d
             else length pts = nat \<lfloor>max_d / depth_res\<rfloor> + 2
                  \<and> max_d < of_nat (length pts - 1) * depth_res
                  \<and> (\<forall>i<length pts - 1. of_nat i * depth_res < max_d))"
    using exact[unfolded k_def q_def] by blast
  show ?thesis
    using ax len' nth lb[unfolded k_def q_def] ub[unfolded k_def q_def] ex'
    by (intro exI[of _ pts]) blast
qed

theorem depth_axis_length_witness:
  "(0::rat) < 2 \<and> (0::rat) \<le> 3
   \<and> round_double (3 + 2) = 3 + 2 \<and> round_double ((3 + 2) / 2) = (3 + 2) / 2
   \<and> depth_axis_rounded round_double 2 3 = Inr [0, 2, 4]
   \<and> length [0::rat, 2, 4] = nat \<lfloor>(3::rat) / 2\<rfloor> + 2
   \<and> (3::rat) < of_nat (length [0::rat, 2, 4] - 1) * 2
   \<and> 0 < tenth \<and> 0 \<le> 2 * tenth
   \<and> depth_axis_rounded round_double tenth (2 * tenth)
       = Inr [0, tenth, 2 * tenth, 5404319552844596 / 2 ^ 54]
   \<and> nat \<lfloor>2 * tenth / tenth\<rfloor> + 1 \<le> length [0, tenth, 2 * tenth, 5404319552844596 / 2 ^ 54]
   \<and> length [0, tenth, 2 * tenth, 5404319552844596 / 2 ^ 54] \<le> nat \<lfloor>2 * tenth / tenth\<rfloor> + 3"
proof -
  have u0: "(0::rat) \<le> 1 / 2 ^ 53" by simp
  have a: "(0::rat) < 2" "(0::rat) \<le> 3" by simp_all
  have a5: "((3::rat) / 2 + 2) * ((1 + 1 / 2 ^ 53) ^ 3 - 1) < 1" by code_simp
  have a6: "(3::rat) / 2 + 3 \<le> 2 ^ 63" by simp
  have ex: "round_double (3 + 2) = 3 + 2" "round_double ((3 + 2) / 2) = (3 + 2) / 2"
    by code_simp+
  have ev: "depth_axis_rounded round_double 2 3 = Inr [0, 2, 4]" by code_simp
  have ni: "(3::rat) / 2 \<notin> \<int>"
  proof
    assume "(3::rat) / 2 \<in> \<int>"
    then obtain z :: int where "(3::rat) / 2 = of_int z" by (auto elim: Ints_cases)
    then have "(of_int (2 * z) :: rat) = of_int 3" by simp
    then have "2 * z = 3" by (simp only: of_int_eq_iff)
    then show False by presburger
  qed
  from depth_axis_length[OF a round_double_relative_error u0 a5 a6] obtain pts where
    p: "depth_axis_rounded round_double 2 3 = Inr pts"
    and e: "round_double (3 + 2) = 3 + 2 \<and> round_double ((3 + 2) / 2) = (3 + 2) / 2
        \<longrightarrow> (if (3::rat) / 2 \<in> \<int>
             then length pts = nat \<lfloor>(3::rat) / 2\<rfloor> + 1 \<and> of_nat (length pts - 1) * 2 = (3::rat)
             else length pts = nat \<lfloor>(3::rat) / 2\<rfloor> + 2 \<and> (3::rat) < of_nat (length pts - 1) * 2
                  \<and> (\<forall>i<length pts - 1. of_nat i * 2 < (3::rat)))"
    by (elim exE conjE) (rule that, assumption+)
  have pe: "pts = [0, 2, 4]" using p ev by simp
  have r1: "length [0::rat, 2, 4] = nat \<lfloor>(3::rat) / 2\<rfloor> + 2"
    and r2: "(3::rat) < of_nat (length [0::rat, 2, 4] - 1) * 2"
    using e ex ni unfolding pe by simp_all
  have b: "0 < tenth" "0 \<le> 2 * tenth" by (simp_all add: tenth_def)
  have b5: "(2 * tenth / tenth + 2) * ((1 + 1 / 2 ^ 53) ^ 3 - 1) < 1" by code_simp
  have b6: "2 * tenth / tenth + 3 \<le> 2 ^ 63" by (simp add: tenth_def)
  have ev': "depth_axis_rounded round_double tenth (2 * tenth)
       = Inr [0, tenth, 2 * tenth, 5404319552844596 / 2 ^ 54]" by code_simp
  from depth_axis_length[OF b round_double_relative_error u0 b5 b6] obtain pts' where
    p': "depth_axis_rounded round_double tenth (2 * tenth) = Inr pts'"
    and lb: "nat \<lfloor>2 * tenth / tenth\<rfloor> + 1 \<le> length pts'"
    and ub: "length pts' \<le> nat \<lfloor>2 * tenth / tenth\<rfloor> + 3"
    by (elim exE conjE) (rule that, assumption+)
  have pe': "pts' = [0, tenth, 2 * tenth, 5404319552844596 / 2 ^ 54]" using p' ev' by simp
  show ?thesis
    using a ex ev r1 r2 b ev' lb[unfolded pe'] ub[unfolded pe'] by blast
qed

subsection \<open>Time-axis reconciliation\<close>

lemma fold_intersection:
  "fold (\<lambda>idx time_index. intersection time_index idx) rest acc
     = filter (\<lambda>t. \<forall>idx\<in>set rest. t \<in> set idx) acc"
proof (induction rest arbitrary: acc)
  case Nil
  then show ?case by simp
next
  case (Cons idx rest)
  have "filter (\<lambda>t. \<forall>i\<in>set rest. t \<in> set i) (filter (\<lambda>t. t \<in> set idx) acc)
        = filter (\<lambda>t. \<forall>i\<in>set (idx # rest). t \<in> set i) acc"
    by (auto intro: filter_cong)
  then show ?case using Cons.IH by (simp add: intersection_def)
qed

lemma filter_strict_sorted:
  assumes "sorted_wrt (<) (xs::int list)"
  shows "filter P xs = sorted_list_of_set {x \<in> set xs. P x}"
proof -
  have "sorted (filter P xs)" "distinct (filter P xs)"
    using assms by (simp_all add: strict_sorted_iff sorted_filter[where f="\<lambda>x. x", simplified])
  moreover have "set (filter P xs) = {x \<in> set xs. P x}" by simp
  ultimately show ?thesis
    by (metis sorted_list_of_set.idem_if_sorted_distinct)
qed

text \<open>
  Claim C3: on time axes that are strictly increasing, the common time axis is the first
  axis when all axes are equal; otherwise the intersection of all axes in ascending order;
  and when that intersection is empty the first axis of the registry, with the warning
  \<open>NoCommonTimes\<close>. In each case the axis returned is strictly increasing.
\<close>

theorem common_time_axis:
  assumes "\<forall>idx\<in>set (first # rest). sorted_wrt (<) idx"
  shows "((\<forall>a\<in>set (first # rest). \<forall>b\<in>set (first # rest). a = b)
            \<longrightarrow> common_time_index first rest = (first, []))
       \<and> (\<not> (\<forall>a\<in>set (first # rest). \<forall>b\<in>set (first # rest). a = b)
            \<longrightarrow> (\<Inter>idx\<in>set (first # rest). set idx) \<noteq> {}
            \<longrightarrow> common_time_index first rest
                  = (sorted_list_of_set (\<Inter>idx\<in>set (first # rest). set idx), []))
       \<and> (\<not> (\<forall>a\<in>set (first # rest). \<forall>b\<in>set (first # rest). a = b)
            \<longrightarrow> (\<Inter>idx\<in>set (first # rest). set idx) = {}
            \<longrightarrow> common_time_index first rest = (first, [NoCommonTimes]))
       \<and> sorted_wrt (<) (fst (common_time_index first rest))"
proof -
  let ?same = "\<forall>a\<in>set (first # rest). \<forall>b\<in>set (first # rest). a = b"
  let ?inter = "\<Inter>idx\<in>set (first # rest). set idx"
  let ?folded = "fold (\<lambda>idx time_index. intersection time_index idx) rest first"
  have same_iff: "list_all (\<lambda>idx. equals idx first) (first # rest) \<longleftrightarrow> ?same"
    unfolding list_all_iff equals_def by (simp; metis)
  have sf: "sorted_wrt (<) first" using assms by simp
  have "{x \<in> set first. \<forall>idx\<in>set rest. x \<in> set idx} = ?inter" by auto
  then have folded: "?folded = sorted_list_of_set ?inter"
    using fold_intersection[of rest first] filter_strict_sorted[OF sf] by simp
  have fin: "finite ?inter" by auto
  have empty_iff: "?folded = [] \<longleftrightarrow> ?inter = {}"
    using folded fin by (simp add: sorted_list_of_set_eq_Nil_iff)
  have c1: "?same \<longrightarrow> common_time_index first rest = (first, [])"
    using same_iff by (simp add: common_time_index_def)
  have c2: "\<not> ?same \<longrightarrow> ?inter \<noteq> {}
      \<longrightarrow> common_time_index first rest = (sorted_list_of_set ?inter, [])"
    using same_iff empty_iff folded by (simp add: common_time_index_def Let_def)
  have c3: "\<not> ?same \<longrightarrow> ?inter = {}
      \<longrightarrow> common_time_index first rest = (first, [NoCommonTimes])"
    using same_iff empty_iff by (simp add: common_time_index_def Let_def)
  have "sorted_wrt (<) (sorted_list_of_set ?inter)"
    using fin by (simp add: strict_sorted_iff)
  then have c4: "sorted_wrt (<) (fst (common_time_index first rest))"
    using c1 c2 c3 sf by (cases ?same; cases "?inter = {}") simp_all
  show ?thesis using c1 c2 c3 c4 by blast
qed

theorem common_time_axis_witness:
  "sorted_wrt (<) [1, 2, 3::int] \<and> sorted_wrt (<) [2, 3, 4::int]
   \<and> [1, 2, 3] \<noteq> [2, 3, 4::int]
   \<and> set [1, 2, 3] \<inter> set [2, 3, 4::int] \<noteq> {}
   \<and> common_time_index [1, 2, 3] [[2, 3, 4]] = ([2, 3], [])
   \<and> sorted_wrt (<) (fst (common_time_index [1, 2, 3] [[2, 3, 4]]))
   \<and> common_time_index [1, 2] [[1, 2]] = ([1, 2], [])
   \<and> set [1, 2] \<inter> set [3, 4::int] = {}
   \<and> common_time_index [1, 2] [[3, 4]] = ([1, 2], [NoCommonTimes])"
proof -
  have h1: "\<forall>idx\<in>set ([1, 2, 3] # [[2, 3, 4::int]]). sorted_wrt (<) idx" by simp
  have h2: "\<forall>idx\<in>set ([1, 2] # [[1, 2::int]]). sorted_wrt (<) idx" by simp
  have h3: "\<forall>idx\<in>set ([1, 2] # [[3, 4::int]]). sorted_wrt (<) idx" by simp
  have e1: "common_time_index [1, 2, 3] [[2, 3, 4]] = ([2, 3], [])" by code_simp
  show ?thesis
    using common_time_axis[OF h1] common_time_axis[OF h2] common_time_axis[OF h3] e1
    by simp
qed

subsection \<open>Errors and messages of the loop over the variables\<close>

lemma interpolate_variable_error:
  "interpolate_variable registry time_index depth_points fill var st = Inl e \<Longrightarrow> e = UnboundLocalError"
  by (auto simp: interpolate_variable_def Let_def split: prod.splits if_splits option.splits)

lemma interpolate_variable_messages:
  "interpolate_variable registry time_index depth_points fill var (arrays, msgs, dv)
     = Inr (arrays', msgs', dv')
   \<Longrightarrow> msgs' = msgs \<or> msgs' = msgs @ [MissingVariable var]"
  by (auto simp: interpolate_variable_def Let_def split: prod.splits if_splits option.splits)

lemma interpolate_all_messages:
  "interpolate_all registry time_index depth_points fill vars (arrays, msgs, dv)
     = (err, (arrays', msgs', dv'))
   \<Longrightarrow> (err = None \<or> err = Some UnboundLocalError)
       \<and> (\<exists>ms. msgs' = msgs @ ms \<and> (\<forall>m\<in>set ms. \<exists>v. m = MissingVariable v))"
proof (induction vars arbitrary: arrays msgs dv)
  case Nil
  then show ?case by simp
next
  case (Cons var vars)
  show ?case
  proof (cases "interpolate_variable registry time_index depth_points fill var (arrays, msgs, dv)")
    case (Inl e)
    then show ?thesis using Cons.prems interpolate_variable_error[OF Inl] by simp
  next
    case (Inr st')
    obtain a1 m1 d1 where st': "st' = (a1, m1, d1)" by (cases st') auto
    have rec: "interpolate_all registry time_index depth_points fill vars (a1, m1, d1)
                 = (err, (arrays', msgs', dv'))"
      using Cons.prems Inr st' by simp
    from Cons.IH[OF rec] obtain ms where
      e: "err = None \<or> err = Some UnboundLocalError" and
      ms: "msgs' = m1 @ ms" "\<forall>m\<in>set ms. \<exists>v. m = MissingVariable v" by blast
    from interpolate_variable_messages[OF Inr[unfolded st']]
    have "m1 = msgs \<or> m1 = msgs @ [MissingVariable var]" .
    then show ?thesis
    proof
      assume "m1 = msgs" then show ?thesis using e ms by blast
    next
      assume "m1 = msgs @ [MissingVariable var]"
      then have "msgs' = msgs @ (MissingVariable var # ms)" using ms by simp
      moreover have "\<forall>m\<in>set (MissingVariable var # ms). \<exists>v. m = MissingVariable v"
        using ms by simp
      ultimately show ?thesis using e by blast
    qed
  qed
qed

lemma time_indices_nonempty: "depth_arrays s \<noteq> [] \<Longrightarrow> \<exists>first rest. time_indices s = first # rest"
  by (cases "depth_arrays s") (auto simp: time_indices_def)

lemma common_time_index_messages:
  "snd (common_time_index first rest) = [] \<or> snd (common_time_index first rest) = [NoCommonTimes]"
  by (simp add: common_time_index_def Let_def)

subsection \<open>Boundary fill\<close>

text \<open>
  Claim C2 asks that, with the fill option set, every column with a non-missing cell is
  filled to both ends whatever the other columns hold. The fill pass is guarded by the
  variable \<^verbatim>\<open>depths\<close> left over from the last time column: here both sensors have
  a reading at the first timestamp and none at the last one, and the first column keeps
  its missing cells at depths 0 and 6.
\<close>

theorem fill_skipped_by_last_column:
  "fill_values stale_depths_input
   \<and> interpolated_arrays (perform_interpolation stale_depths_input) ''temp''
       = Some \<lparr>data = [[None, None], [Some 2, None], [Some 3, None], [Some 4, None],
                        [Some 5, None], [Some 6, None], [None, None]],
                depths = [0, 1, 2, 3, 4, 5, 6], times_axis = [0, 1]\<rparr>"
  by code_simp

subsection \<open>Columns of the value array and the two loops over the time index\<close>

lemma length_column: "length (column arr t) = length arr"
  by (simp add: column_def)

lemma column_set_column_same:
  assumes "length col = length arr" and "\<forall>row\<in>set arr. t < length row"
  shows "column (set_column arr t col) t = col"
proof (rule nth_equalityI)
  show "length (column (set_column arr t col) t) = length col"
    using assms(1) by (simp add: column_def set_column_def)
next
  fix i assume "i < length (column (set_column arr t col) t)"
  then have i: "i < length arr" "i < length col"
    using assms(1) by (simp_all add: column_def set_column_def)
  then have "t < length (arr ! i)" using assms(2) by simp
  then show "column (set_column arr t col) t ! i = col ! i"
    using i by (simp add: column_def set_column_def)
qed

lemma column_set_column_other:
  assumes "length col = length arr" and "t \<noteq> t'"
  shows "column (set_column arr t col) t' = column arr t'"
proof (rule nth_equalityI)
  show "length (column (set_column arr t col) t') = length (column arr t')"
    using assms(1) by (simp add: column_def set_column_def)
next
  fix i assume "i < length (column (set_column arr t col) t')"
  then have i: "i < length arr" "i < length col"
    using assms(1) by (simp_all add: column_def set_column_def)
  then show "column (set_column arr t col) t' ! i = column arr t' ! i"
    using assms(2) by (simp add: column_def set_column_def)
qed

lemma shape_set_column:
  assumes "shape m n arr" and "length col = m"
  shows "shape m n (set_column arr t col)"
  using assms by (auto simp: shape_def set_column_def dest: set_zip_leftD)

lemma shape_initial: "shape m n (replicate m (replicate n None))"
  by (simp add: shape_def)

lemma column_initial: "t < n \<Longrightarrow> column (replicate m (replicate n None)) t = replicate m None"
  by (simp add: column_def)

lemma fold_columns:
  assumes "shape m n arr" and "k \<le> n"
    and "\<And>t c. length c = m \<Longrightarrow> length (F t c) = m"
  shows "shape m n (fold (\<lambda>t a. set_column a t (F t (column a t))) [0..<k] arr)
       \<and> (\<forall>t<k. column (fold (\<lambda>t a. set_column a t (F t (column a t))) [0..<k] arr) t
                   = F t (column arr t))
       \<and> (\<forall>t\<ge>k. column (fold (\<lambda>t a. set_column a t (F t (column a t))) [0..<k] arr) t
                   = column arr t)"
  using assms(2)
proof (induction k)
  case 0
  then show ?case using assms(1) by simp
next
  case (Suc k)
  let ?A = "fold (\<lambda>t a. set_column a t (F t (column a t))) [0..<k] arr"
  let ?c = "F k (column ?A k)"
  have ih: "shape m n ?A" "\<forall>t<k. column ?A t = F t (column arr t)"
    "\<forall>t\<ge>k. column ?A t = column arr t"
    using Suc by simp_all
  have step: "fold (\<lambda>t a. set_column a t (F t (column a t))) [0..<Suc k] arr = set_column ?A k ?c"
    by simp
  have lenA: "length ?A = m" and rows: "\<forall>row\<in>set ?A. k < length row"
    using ih(1) Suc.prems by (auto simp: shape_def)
  have lc: "length ?c = length ?A" using assms(3) lenA by (simp add: length_column)
  have s: "shape m n (set_column ?A k ?c)"
    using ih(1) lc lenA by (simp add: shape_set_column)
  have same: "column (set_column ?A k ?c) k = F k (column arr k)"
    using column_set_column_same[OF lc rows] ih(3) by simp
  have other: "\<And>t. t \<noteq> k \<Longrightarrow> column (set_column ?A k ?c) t = column ?A t"
    by (rule column_set_column_other[OF lc]) simp
  show ?case unfolding step
  proof (intro conjI allI impI)
    show "shape m n (set_column ?A k ?c)" by (rule s)
  next
    fix t assume t: "t < Suc k"
    show "column (set_column ?A k ?c) t = F t (column arr t)"
    proof (cases "t = k")
      case True
      then show ?thesis using same by simp
    next
      case False
      then have "t < k" using t by simp
      then have "column ?A t = F t (column arr t)" using ih(2) by blast
      then show ?thesis using other[OF False] by simp
    qed
  next
    fix t assume t: "Suc k \<le> t"
    then have "t \<noteq> k" and "k \<le> t" by simp_all
    then have "column (set_column ?A k ?c) t = column ?A t" and "column ?A t = column arr t"
      using other ih(3) by blast+
    then show "column (set_column ?A k ?c) t = column arr t" by simp
  qed
qed

lemma fst_fold_interp_time_point:
  "fst (fold (interp_time_point var_data depth_points) ts st)
     = fold (\<lambda>t a. set_column a t
                (interp_column depth_points (valid_readings var_data t) (column a t)))
         ts (fst st)"
  by (induction ts arbitrary: st) (simp_all add: interp_time_point_def Let_def)

lemma snd_fold_interp_time_point:
  "snd (fold (interp_time_point var_data depth_points) ts st)
     = (if ts = [] then snd st else Some (map fst (valid_readings var_data (last ts))))"
proof (induction ts rule: rev_induct)
  case Nil
  then show ?case by simp
next
  case (snoc t ts)
  then show ?case by (simp add: interp_time_point_def Let_def)
qed

lemma fold_fill_time_point:
  "fold fill_time_point ts arr
     = fold (\<lambda>t a. set_column a t (fill_column (column a t))) ts arr"
proof -
  have "fill_time_point = (\<lambda>t a. set_column a t (fill_column (column a t)))"
    by (intro ext) (simp add: fill_time_point_def)
  then show ?thesis by simp
qed

lemma length_interp_column:
  "length col = length depth_points \<Longrightarrow> length (interp_column depth_points readings col) = length col"
  by (simp add: interp_column_def Let_def)

lemma valid_indices_bounds:
  assumes "filter (\<lambda>i. col ! i \<noteq> None) [0..<length col] \<noteq> []"
  shows "hd (filter (\<lambda>i. col ! i \<noteq> None) [0..<length col]) < length col"
    and "last (filter (\<lambda>i. col ! i \<noteq> None) [0..<length col]) < length col"
proof -
  let ?v = "filter (\<lambda>i. col ! i \<noteq> None) [0..<length col]"
  have "hd ?v \<in> set ?v" using assms by (rule hd_in_set)
  then show "hd ?v < length col" by simp
  have "last ?v \<in> set ?v" using assms by (rule last_in_set)
  then show "last ?v < length col" by simp
qed

lemma length_fill_column: "length (fill_column col) = length col"
proof (cases "filter (\<lambda>i. col ! i \<noteq> None) [0..<length col] = []")
  case True
  then show ?thesis by (simp add: fill_column_def)
next
  case False
  from valid_indices_bounds[OF False] show ?thesis
    using False by (simp add: fill_column_def Let_def)
qed

lemma interp_loop_result:
  fixes var_data :: "(rat \<times> cell list) list" and dv :: "rat list option"
    and depth_points :: "rat list" and n m :: nat
  assumes "n = length (time_index :: timestamp list)" and "m = length depth_points"
  defines "looped \<equiv> fold (interp_time_point var_data depth_points) [0..<n]
                       (replicate m (replicate n None), dv)"
  shows "shape m n (fst looped)"
    and "\<forall>t<n. column (fst looped) t
                = interpolated_column depth_points (valid_readings var_data t)"
    and "snd looped = (if n = 0 then dv else Some (map fst (valid_readings var_data (n - 1))))"
proof -
  let ?F = "\<lambda>t c. interp_column depth_points (valid_readings var_data t) c"
  have len: "\<And>t c. length c = m \<Longrightarrow> length (?F t c) = m"
    using assms(2) by (simp add: length_interp_column)
  have fst_eq: "fst looped = fold (\<lambda>t a. set_column a t (?F t (column a t))) [0..<n]
                               (replicate m (replicate n None))"
    unfolding looped_def by (simp add: fst_fold_interp_time_point)
  from fold_columns[of m n "replicate m (replicate n None)" n ?F, OF shape_initial order_refl len]
  have sh: "shape m n (fst looped)"
    and cols: "\<forall>t<n. column (fst looped) t = ?F t (column (replicate m (replicate n None)) t)"
    unfolding fst_eq by blast+
  show "shape m n (fst looped)" by (rule sh)
  show "\<forall>t<n. column (fst looped) t
                = interpolated_column depth_points (valid_readings var_data t)"
    using cols assms(2) by (simp add: column_initial interpolated_column_def)
  show "snd looped = (if n = 0 then dv else Some (map fst (valid_readings var_data (n - 1))))"
    unfolding looped_def by (simp add: snd_fold_interp_time_point)
qed

lemma fill_loop_result:
  assumes "shape m n arr"
  shows "shape m n (fold fill_time_point [0..<n] arr)"
    and "\<forall>t<n. column (fold fill_time_point [0..<n] arr) t = fill_column (column arr t)"
proof -
  have len: "\<And>t c. length c = m \<Longrightarrow> length ((\<lambda>t. fill_column) t c) = m"
    by (simp add: length_fill_column)
  from fold_columns[of m n arr n "\<lambda>t. fill_column", OF assms order_refl len]
  show "shape m n (fold fill_time_point [0..<n] arr)"
    and "\<forall>t<n. column (fold fill_time_point [0..<n] arr) t = fill_column (column arr t)"
    unfolding fold_fill_time_point by blast+
qed

lemma interpolate_variable_result:
  assumes "interpolate_variable registry time_index depth_points fill var (arrays, msgs, dv)
             = Inr (arrays', msgs', dv')"
  shows "(extract_var_data registry time_index var = [] \<and> arrays' = arrays)
       \<or> (extract_var_data registry time_index var \<noteq> []
          \<and> (\<exists>g. arrays' = arrays(var \<mapsto> g)
                 \<and> grid_of_run registry time_index depth_points fill var g))"
proof -
  define n where "n = length time_index"
  define m where "m = length depth_points"
  define var_data where "var_data = extract_var_data registry time_index var"
  define looped where "looped = fold (interp_time_point var_data depth_points) [0..<n]
                                  (replicate m (replicate n None), dv)"
  have L: "shape m n (fst looped)"
    "\<forall>t<n. column (fst looped) t = interpolated_column depth_points (valid_readings var_data t)"
    "snd looped = (if n = 0 then dv else Some (map fst (valid_readings var_data (n - 1))))"
    using interp_loop_result[of n time_index m depth_points var_data dv]
    unfolding looped_def n_def m_def by blast+
  have F: "shape m n (fold fill_time_point [0..<n] (fst looped))"
    "\<forall>t<n. column (fold fill_time_point [0..<n] (fst looped)) t = fill_column (column (fst looped) t)"
    using fill_loop_result[OF L(1)] by blast+
  let ?plain = "\<lparr>data = fst looped, depths = depth_points, times_axis = time_index\<rparr>"
  let ?filled = "\<lparr>data = fold fill_time_point [0..<n] (fst looped), depths = depth_points,
                  times_axis = time_index\<rparr>"
  have plain_ok: "\<not> fill_pass_runs fill var_data n \<or> n = 0
      \<Longrightarrow> grid_of_run registry time_index depth_points fill var ?plain"
    using L(1,2) by (auto simp: grid_of_run_def final_column_def Let_def
        var_data_def[symmetric] n_def[symmetric] m_def[symmetric])
  have filled_ok: "fill_pass_runs fill var_data n \<or> n = 0
      \<Longrightarrow> grid_of_run registry time_index depth_points fill var ?filled"
    using F L(2) by (auto simp: grid_of_run_def final_column_def Let_def
        var_data_def[symmetric] n_def[symmetric] m_def[symmetric])
  show ?thesis
  proof (cases "var_data = []")
    case True
    then show ?thesis using assms
      by (simp add: interpolate_variable_def Let_def var_data_def)
  next
    case False
    note nonempty = False
    have ne: "extract_var_data registry time_index var \<noteq> []"
      using nonempty by (simp add: var_data_def)
    show ?thesis
    proof (cases fill)
      case False
      then have "arrays' = arrays(var \<mapsto> ?plain)"
        using assms nonempty
        by (simp add: interpolate_variable_def Let_def var_data_def looped_def n_def m_def)
      moreover have "grid_of_run registry time_index depth_points fill var ?plain"
        using plain_ok False by (simp add: fill_pass_runs_def)
      ultimately show ?thesis using ne by blast
    next
      case True
      show ?thesis
      proof (cases "snd looped")
        case None
        then show ?thesis using assms nonempty True
          by (simp add: interpolate_variable_def Let_def var_data_def looped_def n_def m_def)
      next
        case (Some ds)
        show ?thesis
        proof (cases "ds = []")
          case True
          then have st: "arrays' = arrays(var \<mapsto> ?plain)"
            using assms nonempty \<open>fill\<close> Some
            by (simp add: interpolate_variable_def Let_def var_data_def looped_def n_def m_def)
          have "\<not> fill_pass_runs fill var_data n \<or> n = 0"
            using L(3) Some True by (cases "n = 0") (simp_all add: fill_pass_runs_def)
          then show ?thesis using st plain_ok ne by blast
        next
          case False
          then have st: "arrays' = arrays(var \<mapsto> ?filled)"
            using assms nonempty \<open>fill\<close> Some
            by (simp add: interpolate_variable_def Let_def var_data_def looped_def n_def m_def)
          have "fill_pass_runs fill var_data n \<or> n = 0"
            using L(3) Some False \<open>fill\<close> by (cases "n = 0") (auto simp: fill_pass_runs_def)
          then show ?thesis using st filled_ok ne by blast
        qed
      qed
    qed
  qed
qed

lemma interpolate_variable_stored:
  assumes "interpolate_variable registry time_index depth_points fill var (arrays, msgs, dv)
             = Inr (arrays', msgs', dv')"
  shows "arrays' = arrays
       \<or> (\<exists>g. arrays' = arrays(var \<mapsto> g) \<and> grid_of_run registry time_index depth_points fill var g)"
  using interpolate_variable_result[OF assms] by blast

subsection \<open>The grid stored for a variable\<close>

lemma interpolate_all_stored:
  assumes "interpolate_all registry time_index depth_points fill vars (arrays, msgs, dv)
             = (err, (arrays', msgs', dv'))"
    and "arrays' v = Some g"
  shows "arrays v = Some g \<or> grid_of_run registry time_index depth_points fill v g"
  using assms
proof (induction vars arbitrary: arrays msgs dv)
  case Nil
  then show ?case by simp
next
  case (Cons var vars)
  show ?case
  proof (cases "interpolate_variable registry time_index depth_points fill var (arrays, msgs, dv)")
    case (Inl e)
    then show ?thesis using Cons.prems by simp
  next
    case (Inr st')
    obtain a1 m1 d1 where st': "st' = (a1, m1, d1)" by (cases st') auto
    have rec: "interpolate_all registry time_index depth_points fill vars (a1, m1, d1)
                 = (err, (arrays', msgs', dv'))"
      using Cons.prems(1) Inr st' by simp
    from Cons.IH[OF rec Cons.prems(2)]
    have "a1 v = Some g \<or> grid_of_run registry time_index depth_points fill v g" .
    then show ?thesis
    proof
      assume a1: "a1 v = Some g"
      from interpolate_variable_stored[OF Inr[unfolded st']]
      have "a1 = arrays
            \<or> (\<exists>g'. a1 = arrays(var \<mapsto> g')
                  \<and> grid_of_run registry time_index depth_points fill var g')" .
      then show ?thesis
      proof
        assume "a1 = arrays" then show ?thesis using a1 by simp
      next
        assume "\<exists>g'. a1 = arrays(var \<mapsto> g')
                  \<and> grid_of_run registry time_index depth_points fill var g'"
        then obtain g' where g': "a1 = arrays(var \<mapsto> g')"
          "grid_of_run registry time_index depth_points fill var g'" by blast
        show ?thesis
        proof (cases "v = var")
          case True
          then have "g = g'" using a1 g'(1) by simp
          then show ?thesis using g'(2) True by simp
        next
          case False
          then show ?thesis using a1 g'(1) by simp
        qed
      qed
    next
      assume "grid_of_run registry time_index depth_points fill v g"
      then show ?thesis by simp
    qed
  qed
qed

text \<open>The time index and the depth points of a run that gets past the early returns.\<close>

lemma stored_grid:
  assumes "depth_arrays s \<noteq> []" and "variables_to_interpolate s \<noteq> []"
    and "interpolated_arrays (perform_interpolation s) var = Some g"
  shows "\<exists>first rest. time_indices s = first # rest
           \<and> times_axis g = fst (common_time_index first rest)
           \<and> depth_axis (depth_resolution s) (max_depth s) = Inr (depths g)
           \<and> grid_of_run (depth_arrays s) (times_axis g) (depths g) (fill_values s) var g"
proof -
  obtain first rest where ti: "time_indices s = first # rest"
    using time_indices_nonempty[OF assms(1)] by blast
  let ?time_index = "fst (common_time_index first rest)"
  let ?w = "snd (common_time_index first rest)"
  show ?thesis
  proof (cases "depth_axis (depth_resolution s) (max_depth s)")
    case (Inl e)
    then have "interpolated_arrays (perform_interpolation s) = Map.empty"
      using assms(1,2) ti by (simp add: perform_interpolation_def Let_def)
    then show ?thesis using assms(3) by simp
  next
    case (Inr pts)
    obtain err a' m' d' where run:
      "interpolate_all (depth_arrays s) ?time_index pts (fill_values s)
         (variables_to_interpolate s) (Map.empty, messages s @ ?w, None) = (err, (a', m', d'))"
      by (metis prod_cases3)
    have "interpolated_arrays (perform_interpolation s) = a'"
      using assms(1,2) ti Inr run
      by (cases err) (simp_all add: perform_interpolation_def Let_def)
    then have "a' var = Some g" using assms(3) by simp
    from interpolate_all_stored[OF run this]
    have ok: "grid_of_run (depth_arrays s) ?time_index pts (fill_values s) var g" by simp
    then have "depths g = pts" "times_axis g = ?time_index" by (simp_all add: grid_of_run_def)
    then show ?thesis using ti Inr ok by simp
  qed
qed

lemma grid_cell:
  assumes "grid_of_run registry time_index depth_points fill var g"
    and "t_idx < length (times_axis g)" and "d_idx < length (depths g)"
  shows "data g ! d_idx ! t_idx
           = final_column (depths g) (extract_var_data registry (times_axis g) var)
               (length (times_axis g)) fill t_idx ! d_idx"
proof -
  have eqs: "depths g = depth_points" "times_axis g = time_index"
    and sh: "shape (length depth_points) (length time_index) (data g)"
    and col: "column (data g) t_idx
            = final_column depth_points (extract_var_data registry time_index var)
                (length time_index) fill t_idx"
    using assms(1,2) by (simp_all add: grid_of_run_def)
  have "d_idx < length (data g)" using sh assms(3) eqs by (simp add: shape_def)
  then have "column (data g) t_idx ! d_idx = data g ! d_idx ! t_idx"
    by (simp add: column_def)
  then show ?thesis using col eqs by simp
qed

subsection \<open>Sorting the readings of a time column\<close>

lemma argsort_facts:
  fixes ds :: "rat list"
  defines "L \<equiv> sort_key fst (zip ds [0..<length ds])"
  shows "argsort ds = map snd L"
    and "set (argsort ds) = {0..<length ds}"
    and "length (argsort ds) = length ds"
    and "map (\<lambda>i. ds ! i) (argsort ds) = map fst L"
    and "distinct ds \<Longrightarrow> distinct (map fst L)"
proof -
  show a: "argsort ds = map snd L" by (simp add: argsort_def L_def)
  have setL: "set L = set (zip ds [0..<length ds])" by (simp add: L_def)
  have "map snd (zip ds [0..<length ds]) = [0..<length ds]"
    by (rule map_snd_zip) simp
  then have "snd ` set (zip ds [0..<length ds]) = set [0..<length ds]"
    by (metis set_map)
  then have "set (map snd L) = {0..<length ds}" using setL by simp
  then show "set (argsort ds) = {0..<length ds}" using a by simp
  show "length (argsort ds) = length ds" using a by (simp add: L_def)
  have "\<forall>p\<in>set L. ds ! snd p = fst p"
    using setL by (auto simp: set_zip)
  then have "map (\<lambda>p. ds ! snd p) L = map fst L" by (intro map_cong) auto
  then show "map (\<lambda>i. ds ! i) (argsort ds) = map fst L" using a by (simp add: comp_def)
  show "distinct (map fst L)" if d: "distinct ds"
  proof (rule card_distinct)
    have "map fst (zip ds [0..<length ds]) = ds" by (rule map_fst_zip) simp
    then have "fst ` set (zip ds [0..<length ds]) = set ds" by (metis set_map)
    then have "set (map fst L) = set ds" using setL by simp
    then have "card (set (map fst L)) = length ds" using d by (simp add: distinct_card)
    then show "card (set (map fst L)) = length (map fst L)" by (simp add: L_def)
  qed
qed

lemma sorted_readings:
  fixes readings :: "(rat \<times> rat) list"
  assumes "distinct (map fst readings)"
    and ds_def: "ds = map fst readings" and vs_def: "vs = map snd readings"
    and dss_def: "dss = map (\<lambda>i. ds ! i) (argsort ds)"
    and vss_def: "vss = map (\<lambda>i. vs ! i) (argsort ds)"
  shows "length dss = length readings" and "length vss = length readings"
    and "sorted_wrt (<) dss"
    and "set (zip dss vss) = set readings"
proof -
  have len: "length ds = length readings" "length vs = length readings"
    by (simp_all add: ds_def vs_def)
  show "length dss = length readings" "length vss = length readings"
    using argsort_facts(3)[where ds=ds] len by (simp_all add: dss_def vss_def)
  have "dss = map fst (sort_key fst (zip ds [0..<length ds]))"
    using argsort_facts(4)[where ds=ds] by (simp add: dss_def)
  moreover have "sorted (map fst (sort_key fst (zip ds [0..<length ds])))"
    by (rule sorted_sort_key)
  moreover have "distinct (map fst (sort_key fst (zip ds [0..<length ds])))"
    using argsort_facts(5)[where ds=ds] assms(1) by (simp add: ds_def)
  ultimately show "sorted_wrt (<) dss" by (simp add: strict_sorted_iff)
  have "zip dss vss = map (\<lambda>i. (ds ! i, vs ! i)) (argsort ds)"
    by (simp add: dss_def vss_def zip_map_map zip_same_conv_map)
  also have "\<dots> = map (\<lambda>i. readings ! i) (argsort ds)"
    using argsort_facts(2)[where ds=ds] len by (intro map_cong) (auto simp: ds_def vs_def)
  finally have "set (zip dss vss) = (\<lambda>i. readings ! i) ` {0..<length readings}"
    using argsort_facts(2)[where ds=ds] len by simp
  also have "\<dots> = set readings"
    by (auto simp: set_conv_nth)
  finally show "set (zip dss vss) = set readings" .
qed

subsection \<open>One interpolated cell\<close>

lemma searchsorted_below: "j < searchsorted a v \<Longrightarrow> a ! j < v"
  unfolding searchsorted_def using nth_mem set_takeWhileD takeWhile_nth by metis

lemma searchsorted_le_length: "searchsorted a v \<le> length a"
  by (simp add: searchsorted_def length_takeWhile_le)

lemma searchsorted_above: "searchsorted a v < length a \<Longrightarrow> v \<le> a ! searchsorted a v"
  unfolding searchsorted_def using nth_length_takeWhile[of "\<lambda>x. x < v" a] by simp

lemma strict_sorted_nth_less:
  "sorted_wrt (<) (xs::rat list) \<Longrightarrow> i < j \<Longrightarrow> j < length xs \<Longrightarrow> xs ! i < xs ! j"
  by (simp add: sorted_wrt_nth_less)

lemma strict_sorted_nth_le:
  "sorted_wrt (<) (xs::rat list) \<Longrightarrow> i \<le> j \<Longrightarrow> j < length xs \<Longrightarrow> xs ! i \<le> xs ! j"
  using strict_sorted_nth_less[of xs i j] by (cases "i = j") auto

lemma searchsorted_exact:
  assumes "sorted_wrt (<) a" and "j < length a"
  shows "searchsorted a (a ! j) = j"
proof -
  let ?i = "searchsorted a (a ! j)"
  have "\<not> j < ?i" using searchsorted_below[of j a "a ! j"] by auto
  then have le: "?i \<le> j" by simp
  then have "?i < length a" using assms(2) by simp
  then have "a ! j \<le> a ! ?i" by (rule searchsorted_above)
  then have "\<not> ?i < j" using strict_sorted_nth_less[OF assms(1) _ assms(2), of ?i] by auto
  then show ?thesis using le by simp
qed

lemma searchsorted_between:
  assumes "sorted_wrt (<) a" and "Suc j < length a" and "a ! j < v" and "v < a ! Suc j"
  shows "searchsorted a v = Suc j"
proof -
  let ?i = "searchsorted a v"
  have "\<not> Suc j < ?i" using searchsorted_below[of "Suc j" a v] assms(4) by auto
  then have le: "?i \<le> Suc j" by simp
  then have "?i < length a" using assms(2) by simp
  then have ge: "v \<le> a ! ?i" by (rule searchsorted_above)
  have "\<not> ?i \<le> j"
  proof
    assume "?i \<le> j"
    then have "a ! ?i \<le> a ! j" using strict_sorted_nth_le[OF assms(1), of ?i j] assms(2) by simp
    then show False using ge assms(3) by simp
  qed
  then show ?thesis using le by simp
qed

lemma last_nth: "xs \<noteq> [] \<Longrightarrow> last xs = xs ! (length xs - 1)"
  by (rule last_conv_nth)

lemma interp_cell_out_of_range:
  assumes "\<not> (depths_sorted ! 0 \<le> depth \<and> depth \<le> last depths_sorted)"
  shows "interp_cell depths_sorted values_sorted depth old = old"
  unfolding interp_cell_def by (rule if_not_P) (rule assms)

lemma interp_cell_exact:
  assumes "sorted_wrt (<) depths_sorted" and "j < length depths_sorted"
  shows "interp_cell depths_sorted values_sorted (depths_sorted ! j) old = Some (values_sorted ! j)"
proof -
  have ne: "depths_sorted \<noteq> []" using assms(2) by auto
  have lo: "depths_sorted ! 0 \<le> depths_sorted ! j"
    using strict_sorted_nth_le[OF assms(1), of 0 j] assms(2) by simp
  have hi: "depths_sorted ! j \<le> last depths_sorted"
    using strict_sorted_nth_le[OF assms(1), of j "length depths_sorted - 1"] assms(2)
    by (simp add: last_conv_nth[OF ne])
  have idx: "searchsorted depths_sorted (depths_sorted ! j) = j"
    by (rule searchsorted_exact[OF assms])
  show ?thesis using lo hi idx assms(2) by (simp add: interp_cell_def Let_def)
qed

lemma interp_cell_between:
  assumes "sorted_wrt (<) depths_sorted" and "Suc j < length depths_sorted"
    and "depths_sorted ! j < depth" and "depth < depths_sorted ! Suc j"
  shows "interp_cell depths_sorted values_sorted depth old
           = Some ((1 - (depth - depths_sorted ! j) / (depths_sorted ! Suc j - depths_sorted ! j))
                     * values_sorted ! j
                   + (depth - depths_sorted ! j) / (depths_sorted ! Suc j - depths_sorted ! j)
                     * values_sorted ! Suc j)"
proof -
  have ne: "depths_sorted \<noteq> []" using assms(2) by auto
  have lo: "depths_sorted ! 0 \<le> depth"
    using strict_sorted_nth_le[OF assms(1), of 0 j] assms(2,3) by simp
  have "depths_sorted ! Suc j \<le> depths_sorted ! (length depths_sorted - 1)"
    using assms(2) by (intro strict_sorted_nth_le[OF assms(1)]) simp_all
  then have hi: "depth \<le> last depths_sorted"
    using assms(4) by (simp add: last_conv_nth[OF ne])
  have idx: "searchsorted depths_sorted depth = Suc j"
    by (rule searchsorted_between[OF assms])
  show ?thesis using lo hi idx assms(2,4) by (simp add: interp_cell_def Let_def)
qed

subsection \<open>The interpolated column\<close>

lemma length_interpolated_column:
  "length (interpolated_column depth_points readings) = length depth_points"
  by (simp add: interpolated_column_def length_interp_column)

lemma interpolated_column_no_reading:
  "interpolated_column depth_points [] = replicate (length depth_points) None"
  by (simp add: interpolated_column_def interp_column_def)

lemma interpolated_column_one_reading:
  "interpolated_column depth_points [(d, v)] = replicate (length depth_points) (Some v)"
  by (simp add: interpolated_column_def interp_column_def map_replicate_const)

lemma interpolated_column_readings:
  assumes "distinct (map fst readings)" and "2 \<le> length readings"
  shows "\<exists>dss vss. sorted_wrt (<) dss \<and> length dss = length readings
           \<and> length vss = length readings \<and> set (zip dss vss) = set readings
           \<and> (\<forall>i<length depth_points.
                 interpolated_column depth_points readings ! i
                   = interp_cell dss vss (depth_points ! i) None)"
proof -
  define ds where "ds = map fst readings"
  define vs where "vs = map snd readings"
  define dss where "dss = map (\<lambda>i. ds ! i) (argsort ds)"
  define vss where "vss = map (\<lambda>i. vs ! i) (argsort ds)"
  note S = sorted_readings[OF assms(1) ds_def vs_def dss_def vss_def]
  have "interpolated_column depth_points readings
          = map (\<lambda>(depth, old). interp_cell dss vss depth old)
              (zip depth_points (replicate (length depth_points) None))"
    using assms(2)
    by (simp add: interpolated_column_def interp_column_def Let_def
        ds_def vs_def dss_def vss_def)
  then have "\<forall>i<length depth_points.
      interpolated_column depth_points readings ! i = interp_cell dss vss (depth_points ! i) None"
    by simp
  then show ?thesis using S by blast
qed

subsection \<open>The boundary fill of a column\<close>

lemma first_valid_index:
  assumes "i < length col" and "col ! i \<noteq> None"
  defines "valid \<equiv> filter (\<lambda>i. col ! i \<noteq> None) [0..<length col]"
  shows "valid \<noteq> []" and "hd valid \<le> i" and "i \<le> last valid"
    and "hd valid < length col" and "last valid < length col"
    and "col ! hd valid \<noteq> None" and "col ! last valid \<noteq> None"
    and "\<forall>j<hd valid. col ! j = None"
    and "\<forall>j<length col. last valid < j \<longrightarrow> col ! j = None"
proof -
  have mem: "\<And>j. j \<in> set valid \<longleftrightarrow> j < length col \<and> col ! j \<noteq> None"
    by (auto simp: valid_def)
  have i: "i \<in> set valid" using assms(1,2) mem by simp
  then show ne: "valid \<noteq> []" by auto
  have srt: "sorted valid" unfolding valid_def by (rule sorted_wrt_filter) simp
  have hd_le: "\<And>j. j \<in> set valid \<Longrightarrow> hd valid \<le> j"
    using srt ne by (cases valid) auto
  have le_last: "j \<le> last valid" if jv: "j \<in> set valid" for j
  proof -
    obtain k where k: "k < length valid" "valid ! k = j"
      using jv by (auto simp: in_set_conv_nth)
    have "valid ! k \<le> valid ! (length valid - 1)"
      using srt k(1) by (intro sorted_nth_mono) simp_all
    then show ?thesis using k(2) ne by (simp add: last_conv_nth)
  qed
  show "hd valid \<le> i" "i \<le> last valid" using i hd_le le_last by simp_all
  have h: "hd valid \<in> set valid" and l: "last valid \<in> set valid" using ne by simp_all
  show "hd valid < length col" "last valid < length col"
    "col ! hd valid \<noteq> None" "col ! last valid \<noteq> None"
    using h l mem by simp_all
  show "\<forall>j<hd valid. col ! j = None"
  proof (intro allI impI)
    fix j assume j: "j < hd valid"
    then have "j < length col" using h mem by simp
    then show "col ! j = None" using hd_le[of j] j mem by fastforce
  qed
  show "\<forall>j<length col. last valid < j \<longrightarrow> col ! j = None"
    using le_last mem by fastforce
qed

lemma fill_column_no_valid:
  "\<forall>i<length col. col ! i = None \<Longrightarrow> fill_column col = col"
proof -
  assume a: "\<forall>i<length col. col ! i = None"
  then have "filter (\<lambda>i. col ! i \<noteq> None) [0..<length col] = []"
    by (simp add: filter_empty_conv)
  then show ?thesis by (simp add: fill_column_def)
qed

lemma fill_column_nth:
  assumes "filter (\<lambda>i. col ! i \<noteq> None) [0..<length col] \<noteq> []" and "i < length col"
  defines "lo \<equiv> hd (filter (\<lambda>i. col ! i \<noteq> None) [0..<length col])"
    and "hi \<equiv> last (filter (\<lambda>i. col ! i \<noteq> None) [0..<length col])"
  shows "fill_column col ! i = (if i < lo then col ! lo else if i \<le> hi then col ! i else col ! hi)"
proof -
  let ?valid = "filter (\<lambda>i. col ! i \<noteq> None) [0..<length col]"
  have "lo \<in> set ?valid" unfolding lo_def using assms(1) by (rule hd_in_set)
  then have lo: "lo < length col" "col ! lo \<noteq> None" by simp_all
  from first_valid_index(3,5)[OF lo]
  have lohi: "lo \<le> hi" and hi: "hi < length col" by (simp_all add: hi_def)
  define col1 where "col1 = replicate lo (col ! lo) @ drop lo col"
  have len1: "length col1 = length col" using lo(1) by (simp add: col1_def)
  have nth1: "\<And>j. j < length col \<Longrightarrow> col1 ! j = (if j < lo then col ! lo else col ! j)"
    using lo(1) by (simp add: col1_def nth_append)
  have fc: "fill_column col = take (hi + 1) col1 @ replicate (length col1 - (hi + 1)) (col1 ! hi)"
    using assms(1) by (simp add: fill_column_def Let_def lo_def hi_def col1_def)
  have bottom: "col1 ! hi = col ! hi" using nth1[OF hi] lohi by simp
  show ?thesis
  proof (cases "i \<le> hi")
    case True
    then have "fill_column col ! i = col1 ! i"
      using fc hi len1 by (simp add: nth_append)
    then show ?thesis using nth1[OF assms(2)] True by simp
  next
    case False
    then have "fill_column col ! i = col1 ! hi"
      using fc hi len1 assms(2) by (simp add: nth_append)
    then show ?thesis using bottom False lohi by simp
  qed
qed

lemma fill_column_keeps:
  assumes "i < length col" and "col ! i \<noteq> None"
  shows "fill_column col ! i = col ! i"
proof -
  note V = first_valid_index[OF assms]
  show ?thesis using fill_column_nth[OF V(1) assms(1)] V(2,3) by simp
qed

lemma fill_column_all_valid:
  assumes "i < length col" and "col ! i \<noteq> None" and "j < length col"
    and "\<forall>a b c. a < b \<and> b < c \<and> c < length col \<and> col ! a \<noteq> None \<and> col ! c \<noteq> None
           \<longrightarrow> col ! b \<noteq> None"
  shows "fill_column col ! j \<noteq> None"
proof -
  let ?valid = "filter (\<lambda>i. col ! i \<noteq> None) [0..<length col]"
  note V = first_valid_index[OF assms(1,2)]
  have inner: "col ! j \<noteq> None" if "hd ?valid \<le> j" "j \<le> last ?valid"
  proof (cases "j = hd ?valid \<or> j = last ?valid")
    case True
    then show ?thesis using V(6,7) by auto
  next
    case False
    then have "hd ?valid < j" "j < last ?valid" using that by simp_all
    then show ?thesis using assms(4) V(5,6,7) by blast
  qed
  have eq: "fill_column col ! j
      = (if j < hd ?valid then col ! hd ?valid
         else if j \<le> last ?valid then col ! j else col ! last ?valid)"
    by (rule fill_column_nth[OF V(1) assms(3)])
  show ?thesis
  proof (cases "j < hd ?valid")
    case True
    then show ?thesis using eq V(6) by simp
  next
    case False
    show ?thesis
    proof (cases "j \<le> last ?valid")
      case True
      then have "col ! j \<noteq> None" using inner False by simp
      then show ?thesis using eq False True by simp
    next
      case b: False
      then show ?thesis using eq False V(7) by simp
    qed
  qed
qed

subsection \<open>The readings of a time column\<close>

lemma distinct_fold_update:
  "distinct (map fst acc) \<Longrightarrow>
   distinct (map fst (fold (\<lambda>(depth, df) var_data.
                       if P df then AList.update depth (f df) var_data else var_data)
                     registry acc))"
proof (induction registry arbitrary: acc)
  case Nil
  then show ?case by simp
next
  case (Cons p registry)
  obtain depth df where p: "p = (depth, df)" by (cases p)
  have "distinct (map fst (if P df then AList.update depth (f df) acc else acc))"
    using Cons.prems by (simp add: distinct_update)
  from Cons.IH[OF this] show ?case by (simp add: p)
qed

lemma distinct_extract_var_data:
  "distinct (map fst (extract_var_data registry time_index var))"
  unfolding extract_var_data_def
  using distinct_fold_update[of "[]" "\<lambda>df. var \<in> set (map fst (columns df))"
      "\<lambda>df. align df time_index var" registry]
  by simp

lemma valid_readings_depths: "fst ` set (valid_readings var_data t_idx) \<subseteq> fst ` set var_data"
  by (induction var_data t_idx rule: valid_readings.induct) auto

lemma distinct_valid_readings:
  "distinct (map fst var_data) \<Longrightarrow> distinct (map fst (valid_readings var_data t_idx))"
proof (induction var_data t_idx rule: valid_readings.induct)
  case (1 t_idx)
  then show ?case by simp
next
  case (2 depth dat rest t_idx)
  have "depth \<notin> fst ` set (valid_readings rest t_idx)"
    using "2.prems" valid_readings_depths[of rest t_idx] by auto
  then show ?case using 2 by simp
qed

lemma distinct_readings:
  "distinct (map fst (valid_readings (extract_var_data registry time_index var) t_idx))"
  by (rule distinct_valid_readings[OF distinct_extract_var_data])

lemma two_readings:
  assumes "p \<in> set readings" and "q \<in> set readings" and "p \<noteq> q"
  shows "2 \<le> length (readings :: (rat \<times> rat) list)"
proof (cases readings)
  case Nil
  then show ?thesis using assms by simp
next
  case (Cons x xs)
  then show ?thesis using assms by (cases xs) auto
qed

subsection \<open>Cells of the interpolated column\<close>

lemma column_exact:
  assumes "distinct (map fst readings)" and "2 \<le> length readings"
    and "i < length depth_points" and "(depth_points ! i, v) \<in> set readings"
  shows "interpolated_column depth_points readings ! i = Some v"
proof -
  from interpolated_column_readings[OF assms(1,2), of depth_points]
  obtain dss vss where S: "sorted_wrt (<) dss" "length dss = length readings"
    "length vss = length readings" "set (zip dss vss) = set readings"
    "\<forall>i<length depth_points.
       interpolated_column depth_points readings ! i = interp_cell dss vss (depth_points ! i) None"
    by blast
  have "(depth_points ! i, v) \<in> set (zip dss vss)" using assms(4) S(4) by simp
  then obtain j where j: "j < length dss" "dss ! j = depth_points ! i" "vss ! j = v"
    by (auto simp: in_set_zip)
  have "interp_cell dss vss (dss ! j) None = Some (vss ! j)"
    by (rule interp_cell_exact[OF S(1) j(1)])
  then show ?thesis using S(5) assms(3) j by simp
qed

lemma column_between:
  assumes "distinct (map fst readings)"
    and "i < length depth_points"
    and "(d1, v1) \<in> set readings" and "(d2, v2) \<in> set readings"
    and "d1 < depth_points ! i" and "depth_points ! i < d2"
    and "\<forall>(d', v')\<in>set readings. \<not> (d1 < d' \<and> d' < d2)"
  shows "interpolated_column depth_points readings ! i
           = Some (v1 + (v2 - v1) * (depth_points ! i - d1) / (d2 - d1))"
proof -
  let ?d = "depth_points ! i"
  have "(d1, v1) \<noteq> (d2, v2)" using assms(5,6) by auto
  then have two: "2 \<le> length readings" using two_readings assms(3,4) by blast
  from interpolated_column_readings[OF assms(1) two, of depth_points]
  obtain dss vss where S: "sorted_wrt (<) dss" "length dss = length readings"
    "length vss = length readings" "set (zip dss vss) = set readings"
    "\<forall>i<length depth_points.
       interpolated_column depth_points readings ! i = interp_cell dss vss (depth_points ! i) None"
    by blast
  have mem: "\<And>j. j < length dss \<Longrightarrow> (dss ! j, vss ! j) \<in> set readings"
    using S(2,3,4) by (metis in_set_zip fst_conv snd_conv)
  have "(d1, v1) \<in> set (zip dss vss)" using assms(3) S(4) by simp
  then obtain a where a: "a < length dss" "dss ! a = d1" "vss ! a = v1"
    by (auto simp: in_set_zip)
  have "(d2, v2) \<in> set (zip dss vss)" using assms(4) S(4) by simp
  then obtain b where b: "b < length dss" "dss ! b = d2" "vss ! b = v2"
    by (auto simp: in_set_zip)
  have ab: "a < b"
  proof (rule ccontr)
    assume "\<not> a < b"
    then have "b \<le> a" by simp
    then have "dss ! b \<le> dss ! a" using strict_sorted_nth_le[OF S(1) _ a(1)] by simp
    then show False using a(2) b(2) assms(5,6) by simp
  qed
  have "b = Suc a"
  proof (rule ccontr)
    assume "b \<noteq> Suc a"
    then have lt: "Suc a < b" using ab by simp
    then have sa: "Suc a < length dss" using b(1) by simp
    have "d1 < dss ! Suc a" using strict_sorted_nth_less[OF S(1) _ sa, of a] a(2) by simp
    moreover have "dss ! Suc a < d2" using strict_sorted_nth_less[OF S(1) lt b(1)] b(2) by simp
    moreover have "(dss ! Suc a, vss ! Suc a) \<in> set readings" by (rule mem[OF sa])
    ultimately show False using assms(7) by blast
  qed
  then have sb: "Suc a < length dss" and da: "dss ! Suc a = d2" and va: "vss ! Suc a = v2"
    using b by simp_all
  have "interp_cell dss vss ?d None
          = Some ((1 - (?d - dss ! a) / (dss ! Suc a - dss ! a)) * vss ! a
                  + (?d - dss ! a) / (dss ! Suc a - dss ! a) * vss ! Suc a)"
    using assms(5,6) a(2) da by (intro interp_cell_between[OF S(1) sb]) simp_all
  then have cell: "interpolated_column depth_points readings ! i
          = Some ((1 - (?d - d1) / (d2 - d1)) * v1 + (?d - d1) / (d2 - d1) * v2)"
    using S(5) assms(2) a(2,3) da va by simp
  define w where "w = (?d - d1) / (d2 - d1)"
  have "(1 - w) * v1 + w * v2 = v1 + (v2 - v1) * w" by (simp add: algebra_simps)
  also have "(v2 - v1) * w = (v2 - v1) * (?d - d1) / (d2 - d1)" by (simp add: w_def)
  finally have "(1 - (?d - d1) / (d2 - d1)) * v1 + (?d - d1) / (d2 - d1) * v2
           = v1 + (v2 - v1) * (?d - d1) / (d2 - d1)"
    by (simp only: w_def)
  then show ?thesis using cell by (simp only:)
qed

subsection \<open>From the interpolated column to the stored grid\<close>

lemma final_column_keeps:
  assumes "d_idx < length depth_points"
    and "interpolated_column depth_points (valid_readings var_data t_idx) ! d_idx = Some x"
  shows "final_column depth_points var_data n fill t_idx ! d_idx = Some x"
proof -
  let ?c = "interpolated_column depth_points (valid_readings var_data t_idx)"
  have "d_idx < length ?c" using assms(1) by (simp add: length_interpolated_column)
  then have "fill_column ?c ! d_idx = ?c ! d_idx"
    using assms(2) by (intro fill_column_keeps) simp_all
  then show ?thesis using assms(2) by (simp add: final_column_def Let_def)
qed

lemma stored_cell:
  assumes "depth_arrays s \<noteq> []" and "variables_to_interpolate s \<noteq> []"
    and "interpolated_arrays (perform_interpolation s) var = Some g"
    and "t_idx < length (times_axis g)" and "d_idx < length (depths g)"
  shows "data g ! d_idx ! t_idx
           = final_column (depths g) (extract_var_data (depth_arrays s) (times_axis g) var)
               (length (times_axis g)) (fill_values s) t_idx ! d_idx"
proof -
  from stored_grid[OF assms(1,2,3)]
  have "grid_of_run (depth_arrays s) (times_axis g) (depths g) (fill_values s) var g" by blast
  from grid_cell[OF this assms(4,5)] show ?thesis .
qed

lemma stored_cell_keeps:
  assumes "depth_arrays s \<noteq> []" and "variables_to_interpolate s \<noteq> []"
    and "interpolated_arrays (perform_interpolation s) var = Some g"
    and "t_idx < length (times_axis g)" and "d_idx < length (depths g)"
    and "interpolated_column (depths g)
           (valid_readings (extract_var_data (depth_arrays s) (times_axis g) var) t_idx) ! d_idx
         = Some x"
  shows "data g ! d_idx ! t_idx = Some x"
  using stored_cell[OF assms(1-5)] final_column_keeps[OF assms(5,6)] by simp

subsection \<open>Runs that end without an error\<close>

lemma interpolate_variable_total:
  assumes "time_index \<noteq> []"
  shows "\<exists>st'. interpolate_variable registry time_index depth_points fill var st = Inr st'"
proof -
  obtain arrays msgs dv where st: "st = (arrays, msgs, dv)" by (cases st) auto
  have "[0..<length time_index] \<noteq> []" using assms by simp
  then have "snd (fold (interp_time_point (extract_var_data registry time_index var) depth_points)
                    [0..<length time_index]
                    (replicate (length depth_points) (replicate (length time_index) None), dv))
             \<noteq> None"
    by (simp only: snd_fold_interp_time_point if_False) simp
  then show ?thesis
    by (auto simp: interpolate_variable_def Let_def st split: option.splits)
qed

lemma interpolate_all_total:
  assumes "time_index \<noteq> []"
  shows "fst (interpolate_all registry time_index depth_points fill vars st) = None"
proof (induction vars arbitrary: st)
  case Nil
  then show ?case by simp
next
  case (Cons var vars)
  obtain st' where "interpolate_variable registry time_index depth_points fill var st = Inr st'"
    using interpolate_variable_total[OF assms] by blast
  then show ?case using Cons.IH by simp
qed

lemma run_without_error:
  assumes "depth_arrays s \<noteq> []" and "variables_to_interpolate s \<noteq> []"
    and "time_indices s = first # rest" and "fst (common_time_index first rest) \<noteq> []"
    and "depth_axis (depth_resolution s) (max_depth s) = Inr pts"
  shows "InterpolationError e \<notin> set (drop (length (messages s)) (messages (perform_interpolation s)))"
proof -
  let ?w = "snd (common_time_index first rest)"
  have w: "?w = [] \<or> ?w = [NoCommonTimes]" by (rule common_time_index_messages)
  obtain err a' m' d' where run:
    "interpolate_all (depth_arrays s) (fst (common_time_index first rest)) pts (fill_values s)
       (variables_to_interpolate s) (Map.empty, messages s @ ?w, None) = (err, (a', m', d'))"
    by (metis prod_cases3)
  have "err = None" using interpolate_all_total[OF assms(4)] run by (metis fst_conv)
  from interpolate_all_messages[OF run] obtain ms where
    ms: "m' = (messages s @ ?w) @ ms" "\<forall>m\<in>set ms. \<exists>v. m = MissingVariable v" by blast
  have "messages (perform_interpolation s) = messages s @ ?w @ ms"
    using assms(1,2,3,5) run ms(1) \<open>err = None\<close>
    by (simp add: perform_interpolation_def Let_def)
  then have "set (drop (length (messages s)) (messages (perform_interpolation s)))
          = set ?w \<union> set ms"
    by auto
  then show ?thesis using w ms(2) by auto
qed

subsection \<open>The scenario of the specification\<close>

text \<open>
  Sensors at depths 1, 5 and 10, depth points 0 to 11, three timestamps: no reading at the
  first, one reading at the second, the readings 2, 6 and 16 at the third.
\<close>

lemma scenario_run:
  "depth_arrays scenario_input \<noteq> []"
  "variables_to_interpolate scenario_input \<noteq> []"
  "interpolated_arrays (perform_interpolation scenario_input) ''temp'' = Some scenario_grid"
  by code_simp+

lemma scenario_readings:
  "valid_readings (extract_var_data (depth_arrays scenario_input) (times_axis scenario_grid)
     ''temp'') 0 = []"
  "valid_readings (extract_var_data (depth_arrays scenario_input) (times_axis scenario_grid)
     ''temp'') 1 = [(5, 7)]"
  "valid_readings (extract_var_data (depth_arrays scenario_input) (times_axis scenario_grid)
     ''temp'') 2 = [(1, 2), (5, 6), (10, 16)]"
  by code_simp+

lemma scenario_sizes:
  "length (times_axis scenario_grid) = 3" "length (depths scenario_grid) = 12"
  by (simp_all add: scenario_grid_def)

subsection \<open>Cells of the stored grid\<close>

text \<open>
  In the theorems below a run gets past the two early returns of the routine (a registry
  and a selected variable), \<open>g\<close> is the grid it stores for \<open>var\<close>, and the valid readings
  at \<open>t_idx\<close> are those of \<open>var\<close> aligned to the time axis of \<open>g\<close>.
\<close>

text \<open>
  Claim C4: at a depth point strictly between the depths \<open>d1 < d2\<close> of two valid readings
  with no valid reading strictly between them, the cell is
  \<open>v1 + (v2 - v1) * (d - d1) / (d2 - d1)\<close>, which is \<open>(1 - w) * v1 + w * v2\<close> for
  \<open>w = (d - d1) / (d2 - d1)\<close>.
\<close>

theorem linear_interpolation:
  assumes "depth_arrays s \<noteq> []" and "variables_to_interpolate s \<noteq> []"
    and "interpolated_arrays (perform_interpolation s) var = Some g"
    and "t_idx < length (times_axis g)" and "d_idx < length (depths g)"
    and "(d1, v1) \<in> set (valid_readings (extract_var_data (depth_arrays s) (times_axis g) var) t_idx)"
    and "(d2, v2) \<in> set (valid_readings (extract_var_data (depth_arrays s) (times_axis g) var) t_idx)"
    and "d1 < depths g ! d_idx" and "depths g ! d_idx < d2"
    and "\<forall>(d', v')\<in>set (valid_readings (extract_var_data (depth_arrays s) (times_axis g) var) t_idx).
           \<not> (d1 < d' \<and> d' < d2)"
  shows "data g ! d_idx ! t_idx = Some (v1 + (v2 - v1) * (depths g ! d_idx - d1) / (d2 - d1))
       \<and> v1 + (v2 - v1) * (depths g ! d_idx - d1) / (d2 - d1)
           = (1 - (depths g ! d_idx - d1) / (d2 - d1)) * v1
             + (depths g ! d_idx - d1) / (d2 - d1) * v2"
proof -
  have "interpolated_column (depths g)
          (valid_readings (extract_var_data (depth_arrays s) (times_axis g) var) t_idx) ! d_idx
        = Some (v1 + (v2 - v1) * (depths g ! d_idx - d1) / (d2 - d1))"
    by (rule column_between[OF distinct_readings assms(5,6,7,8,9,10)])
  from stored_cell_keeps[OF assms(1-5) this]
  have a: "data g ! d_idx ! t_idx = Some (v1 + (v2 - v1) * (depths g ! d_idx - d1) / (d2 - d1))" .
  define w where "w = (depths g ! d_idx - d1) / (d2 - d1)"
  have "v1 + (v2 - v1) * w = (1 - w) * v1 + w * v2" by (simp add: algebra_simps)
  moreover have "(v2 - v1) * w = (v2 - v1) * (depths g ! d_idx - d1) / (d2 - d1)"
    by (simp add: w_def)
  ultimately have "v1 + (v2 - v1) * (depths g ! d_idx - d1) / (d2 - d1)
           = (1 - (depths g ! d_idx - d1) / (d2 - d1)) * v1
             + (depths g ! d_idx - d1) / (d2 - d1) * v2"
    by (simp only: w_def)
  then show ?thesis using a by (simp only:)
qed

theorem linear_interpolation_witness:
  "depth_arrays scenario_input \<noteq> []
   \<and> variables_to_interpolate scenario_input \<noteq> []
   \<and> interpolated_arrays (perform_interpolation scenario_input) ''temp'' = Some scenario_grid
   \<and> valid_readings (extract_var_data (depth_arrays scenario_input) (times_axis scenario_grid)
        ''temp'') 2 = [(1, 2), (5, 6), (10, 16)]
   \<and> depths scenario_grid ! 7 = 7
   \<and> data scenario_grid ! 7 ! 2 = Some (6 + (16 - 6) * (7 - 5) / (10 - 5))
   \<and> data scenario_grid ! 7 ! 2 = Some 10"
proof -
  let ?rs = "valid_readings (extract_var_data (depth_arrays scenario_input)
               (times_axis scenario_grid) ''temp'') 2"
  have t: "2 < length (times_axis scenario_grid)" and d: "7 < length (depths scenario_grid)"
    by (simp_all add: scenario_sizes)
  have dep: "depths scenario_grid ! 7 = 7" by (simp add: scenario_grid_def)
  have m1: "(5, 6) \<in> set ?rs" and m2: "(10, 16) \<in> set ?rs"
    by (simp_all add: scenario_readings(3))
  have lo: "5 < depths scenario_grid ! 7" and hi: "depths scenario_grid ! 7 < 10"
    by (simp_all add: dep)
  have gap: "\<forall>(d', v')\<in>set ?rs. \<not> (5 < d' \<and> d' < 10)"
    by (simp add: scenario_readings(3))
  have "data scenario_grid ! 7 ! 2
          = Some (6 + (16 - 6) * (depths scenario_grid ! 7 - 5) / (10 - 5))"
    using linear_interpolation[OF scenario_run t d m1 m2 lo hi gap] by blast
  then have "data scenario_grid ! 7 ! 2 = Some (6 + (16 - 6) * (7 - 5) / (10 - 5))"
    by (simp only: dep)
  moreover from this have "data scenario_grid ! 7 ! 2 = Some 10" by simp
  ultimately show ?thesis using scenario_run scenario_readings(3) dep by blast
qed

text \<open>
  Claim C5: with at least two valid readings, at a depth point that is the depth of a valid
  reading the cell is the value of that reading.
\<close>

theorem exact_reading_depth:
  assumes "depth_arrays s \<noteq> []" and "variables_to_interpolate s \<noteq> []"
    and "interpolated_arrays (perform_interpolation s) var = Some g"
    and "t_idx < length (times_axis g)" and "d_idx < length (depths g)"
    and "2 \<le> length (valid_readings (extract_var_data (depth_arrays s) (times_axis g) var) t_idx)"
    and "(depths g ! d_idx, v)
           \<in> set (valid_readings (extract_var_data (depth_arrays s) (times_axis g) var) t_idx)"
  shows "data g ! d_idx ! t_idx = Some v"
proof -
  have "interpolated_column (depths g)
          (valid_readings (extract_var_data (depth_arrays s) (times_axis g) var) t_idx) ! d_idx
        = Some v"
    by (rule column_exact[OF distinct_readings assms(6,5,7)])
  from stored_cell_keeps[OF assms(1-5) this] show ?thesis .
qed

theorem exact_reading_depth_witness:
  "depth_arrays scenario_input \<noteq> []
   \<and> variables_to_interpolate scenario_input \<noteq> []
   \<and> interpolated_arrays (perform_interpolation scenario_input) ''temp'' = Some scenario_grid
   \<and> valid_readings (extract_var_data (depth_arrays scenario_input) (times_axis scenario_grid)
        ''temp'') 2 = [(1, 2), (5, 6), (10, 16)]
   \<and> depths scenario_grid ! 5 = 5
   \<and> data scenario_grid ! 5 ! 2 = Some 6"
proof -
  let ?rs = "valid_readings (extract_var_data (depth_arrays scenario_input)
               (times_axis scenario_grid) ''temp'') 2"
  have t: "2 < length (times_axis scenario_grid)" and d: "5 < length (depths scenario_grid)"
    by (simp_all add: scenario_sizes)
  have dep: "depths scenario_grid ! 5 = 5" by (simp add: scenario_grid_def)
  have k: "2 \<le> length ?rs" by (simp add: scenario_readings(3))
  have m: "(depths scenario_grid ! 5, 6) \<in> set ?rs" by (simp add: scenario_readings(3) dep)
  have "data scenario_grid ! 5 ! 2 = Some 6"
    by (rule exact_reading_depth[OF scenario_run t d k m])
  then show ?thesis using scenario_run scenario_readings(3) dep by blast
qed

text \<open>
  Claim C6: with no valid reading at a time index every cell of the column is missing; with
  exactly one, every cell of the column is its value; and the run reports no error.
\<close>

theorem degenerate_columns:
  assumes "depth_arrays s \<noteq> []" and "variables_to_interpolate s \<noteq> []"
    and "interpolated_arrays (perform_interpolation s) var = Some g"
    and "t_idx < length (times_axis g)" and "d_idx < length (depths g)"
  shows "(valid_readings (extract_var_data (depth_arrays s) (times_axis g) var) t_idx = []
            \<longrightarrow> data g ! d_idx ! t_idx = None)
       \<and> (\<forall>d v. valid_readings (extract_var_data (depth_arrays s) (times_axis g) var) t_idx
                   = [(d, v)]
            \<longrightarrow> data g ! d_idx ! t_idx = Some v)
       \<and> (\<forall>e. InterpolationError e
                 \<notin> set (drop (length (messages s)) (messages (perform_interpolation s))))"
proof (intro conjI allI impI)
  let ?vd = "extract_var_data (depth_arrays s) (times_axis g) var"
  let ?n = "length (times_axis g)"
  have cell: "data g ! d_idx ! t_idx
                = final_column (depths g) ?vd ?n (fill_values s) t_idx ! d_idx"
    by (rule stored_cell[OF assms])
  {
    assume none: "valid_readings ?vd t_idx = []"
    have c: "interpolated_column (depths g) (valid_readings ?vd t_idx)
               = replicate (length (depths g)) None"
      using none by (simp add: interpolated_column_no_reading)
    have "fill_column (replicate (length (depths g)) None) = replicate (length (depths g)) None"
      by (rule fill_column_no_valid) simp
    then have "final_column (depths g) ?vd ?n (fill_values s) t_idx
                 = replicate (length (depths g)) None"
      using c by (simp add: final_column_def Let_def)
    then show "data g ! d_idx ! t_idx = None" using cell assms(5) by simp
  }
  {
    fix d v assume one: "valid_readings ?vd t_idx = [(d, v)]"
    have "interpolated_column (depths g) (valid_readings ?vd t_idx) ! d_idx = Some v"
      using one assms(5) by (simp add: interpolated_column_one_reading)
    from stored_cell_keeps[OF assms this] show "data g ! d_idx ! t_idx = Some v" .
  }
  {
    fix e
    from stored_grid[OF assms(1,2,3)] obtain first rest where
      ti: "time_indices s = first # rest" "times_axis g = fst (common_time_index first rest)"
      and ax: "depth_axis (depth_resolution s) (max_depth s) = Inr (depths g)" by blast
    have "fst (common_time_index first rest) \<noteq> []" using ti(2) assms(4) by auto
    from run_without_error[OF assms(1,2) ti(1) this ax]
    show "InterpolationError e
            \<notin> set (drop (length (messages s)) (messages (perform_interpolation s)))" .
  }
qed

theorem degenerate_columns_witness:
  "depth_arrays scenario_input \<noteq> []
   \<and> variables_to_interpolate scenario_input \<noteq> []
   \<and> interpolated_arrays (perform_interpolation scenario_input) ''temp'' = Some scenario_grid
   \<and> valid_readings (extract_var_data (depth_arrays scenario_input) (times_axis scenario_grid)
        ''temp'') 0 = []
   \<and> data scenario_grid ! 3 ! 0 = None
   \<and> valid_readings (extract_var_data (depth_arrays scenario_input) (times_axis scenario_grid)
        ''temp'') 1 = [(5, 7)]
   \<and> data scenario_grid ! 3 ! 1 = Some 7"
proof -
  have t0: "0 < length (times_axis scenario_grid)" and t1: "1 < length (times_axis scenario_grid)"
    and d: "3 < length (depths scenario_grid)"
    by (simp_all add: scenario_sizes)
  have "data scenario_grid ! 3 ! 0 = None"
    using degenerate_columns[OF scenario_run t0 d] scenario_readings(1) by blast
  moreover have "data scenario_grid ! 3 ! 1 = Some 7"
    using degenerate_columns[OF scenario_run t1 d] scenario_readings(2) by blast
  ultimately show ?thesis using scenario_run scenario_readings(1,2) by blast
qed

subsection \<open>Configuration\<close>









subsection \<open>Which cells the interpolation sets\<close>

lemma interp_cell_some_iff:
  "interp_cell dss vss d None \<noteq> None \<longleftrightarrow> dss ! 0 \<le> d \<and> d \<le> last dss"
  by (simp add: interp_cell_def Let_def)

lemma strict_sorted_min_max:
  assumes "sorted_wrt (<) (dss :: rat list)" and "dss \<noteq> []"
  shows "dss ! 0 = Min (set dss)" and "last dss = Max (set dss)"
proof -
  have len: "0 < length dss" using assms(2) by simp
  have lo: "\<forall>y\<in>set dss. dss ! 0 \<le> y"
  proof
    fix y assume "y \<in> set dss"
    then obtain k where k: "k < length dss" "dss ! k = y" by (auto simp: in_set_conv_nth)
    show "dss ! 0 \<le> y" using strict_sorted_nth_le[OF assms(1) _ k(1), of 0] k(2) by simp
  qed
  have hi: "\<forall>y\<in>set dss. y \<le> last dss"
  proof
    fix y assume "y \<in> set dss"
    then obtain k where k: "k < length dss" "dss ! k = y" by (auto simp: in_set_conv_nth)
    have "dss ! k \<le> dss ! (length dss - 1)"
      using k(1) len by (intro strict_sorted_nth_le[OF assms(1)]) simp_all
    then show "y \<le> last dss" using k(2) assms(2) by (simp add: last_conv_nth)
  qed
  have "dss ! 0 \<in> set dss" using len by simp
  then show "dss ! 0 = Min (set dss)" using lo by (intro Min_eqI[symmetric]) simp_all
  have "last dss \<in> set dss" using assms(2) by simp
  then show "last dss = Max (set dss)" using hi by (intro Max_eqI[symmetric]) simp_all
qed

lemma column_some_iff:
  assumes "distinct (map fst readings)" and "2 \<le> length readings"
    and "i < length depth_points"
  shows "interpolated_column depth_points readings ! i \<noteq> None
         \<longleftrightarrow> Min (fst ` set readings) \<le> depth_points ! i
             \<and> depth_points ! i \<le> Max (fst ` set readings)"
proof -
  from interpolated_column_readings[OF assms(1,2), of depth_points]
  obtain dss vss where S: "sorted_wrt (<) dss" "length dss = length readings"
    "length vss = length readings" "set (zip dss vss) = set readings"
    "\<forall>i<length depth_points.
       interpolated_column depth_points readings ! i = interp_cell dss vss (depth_points ! i) None"
    by blast
  have ne: "dss \<noteq> []" using S(2) assms(2) by auto
  have "map fst (zip dss vss) = dss" using S(2,3) by (intro map_fst_zip) simp
  then have "fst ` set (zip dss vss) = set dss" by (metis set_map)
  then have sets: "set dss = fst ` set readings" using S(4) by simp
  have "dss ! 0 = Min (fst ` set readings)" "last dss = Max (fst ` set readings)"
    using strict_sorted_min_max[OF S(1) ne] sets by simp_all
  then show ?thesis using S(5) assms(3) interp_cell_some_iff[of dss vss "depth_points ! i"]
    by simp
qed

subsection \<open>The depth axis is strictly monotone\<close>

lemma depth_axis_monotone:
  assumes "depth_axis depth_res max_d = Inr pts"
  shows "(\<forall>i j. i < j \<and> j < length pts \<longrightarrow> pts ! i < pts ! j)
       \<or> (\<forall>i j. i < j \<and> j < length pts \<longrightarrow> pts ! j < pts ! i)"
proof -
  have nz: "depth_res \<noteq> 0"
    and pts: "pts = map (\<lambda>i. of_nat i * depth_res) [0..<nat (\<lceil>max_d / depth_res\<rceil> + 1)]"
    using depth_axis_points[OF assms] by simp_all
  have nth: "\<And>i. i < length pts \<Longrightarrow> pts ! i = of_nat i * depth_res"
    by (simp add: pts)
  show ?thesis
  proof (cases "0 < depth_res")
    case True
    have "\<forall>i j. i < j \<and> j < length pts \<longrightarrow> pts ! i < pts ! j"
    proof (intro allI impI)
      fix i j assume ij: "i < j \<and> j < length pts"
      then have "(of_nat i :: rat) < of_nat j" by simp
      then have "of_nat i * depth_res < of_nat j * depth_res" using True by simp
      then show "pts ! i < pts ! j" using nth ij by simp
    qed
    then show ?thesis by blast
  next
    case False
    then have neg: "depth_res < 0" using nz by simp
    have "\<forall>i j. i < j \<and> j < length pts \<longrightarrow> pts ! j < pts ! i"
    proof (intro allI impI)
      fix i j assume ij: "i < j \<and> j < length pts"
      then have "(of_nat i :: rat) < of_nat j" by simp
      then have "of_nat j * depth_res < of_nat i * depth_res" using neg by simp
      then show "pts ! j < pts ! i" using nth ij by simp
    qed
    then show ?thesis by blast
  qed
qed

lemma monotone_between:
  fixes pts :: "rat list"
  assumes "(\<forall>i j. i < j \<and> j < length pts \<longrightarrow> pts ! i < pts ! j)
         \<or> (\<forall>i j. i < j \<and> j < length pts \<longrightarrow> pts ! j < pts ! i)"
    and "i < j" and "j < k" and "k < length pts"
    and "lo \<le> pts ! i" and "pts ! i \<le> hi" and "lo \<le> pts ! k" and "pts ! k \<le> hi"
  shows "lo \<le> pts ! j \<and> pts ! j \<le> hi"
proof -
  have jl: "j < length pts" using assms(3,4) by simp
  from assms(1) show ?thesis
  proof
    assume inc: "\<forall>i j. i < j \<and> j < length pts \<longrightarrow> pts ! i < pts ! j"
    have "pts ! i < pts ! j" "pts ! j < pts ! k" using inc assms(2,3,4) jl by blast+
    then show ?thesis using assms(5,8) by simp
  next
    assume dec: "\<forall>i j. i < j \<and> j < length pts \<longrightarrow> pts ! j < pts ! i"
    have "pts ! j < pts ! i" "pts ! k < pts ! j" using dec assms(2,3,4) jl by blast+
    then show ?thesis using assms(6,7) by simp
  qed
qed

subsection \<open>Non-missing cells are contiguous\<close>

lemma interpolated_column_contiguous:
  assumes "distinct (map fst readings)"
    and "(\<forall>i j. i < j \<and> j < length depth_points \<longrightarrow> depth_points ! i < depth_points ! j)
       \<or> (\<forall>i j. i < j \<and> j < length depth_points \<longrightarrow> depth_points ! j < depth_points ! i)"
    and "a < b" and "b < c" and "c < length depth_points"
    and "interpolated_column depth_points readings ! a \<noteq> None"
    and "interpolated_column depth_points readings ! c \<noteq> None"
  shows "interpolated_column depth_points readings ! b \<noteq> None"
proof -
  have al: "a < length depth_points" and bl: "b < length depth_points"
    using assms(3,4,5) by simp_all
  consider "readings = []" | d v where "readings = [(d, v)]" | "2 \<le> length readings"
  proof (cases readings)
    case Nil
    then show ?thesis using that by simp
  next
    case (Cons x xs)
    then show ?thesis using that by (cases xs; cases x) auto
  qed
  then show ?thesis
  proof cases
    case 1
    then show ?thesis using assms(6) al by (simp add: interpolated_column_no_reading)
  next
    case 2
    then show ?thesis using bl by (simp add: interpolated_column_one_reading)
  next
    case 3
    note iff = column_some_iff[OF assms(1) 3]
    have "Min (fst ` set readings) \<le> depth_points ! b \<and> depth_points ! b \<le> Max (fst ` set readings)"
      using monotone_between[OF assms(2,3,4,5)] iff[OF al] iff[OF assms(5)] assms(6,7)
      by blast
    then show ?thesis using iff[OF bl] by blast
  qed
qed

lemma final_column_cases:
  "final_column depth_points var_data n fill t_idx
     = (if fill_pass_runs fill var_data n
        then fill_column (interpolated_column depth_points (valid_readings var_data t_idx))
        else interpolated_column depth_points (valid_readings var_data t_idx))"
  by (simp add: final_column_def Let_def)

lemma filled_column_all_or_none:
  assumes "distinct (map fst readings)"
    and "(\<forall>i j. i < j \<and> j < length depth_points \<longrightarrow> depth_points ! i < depth_points ! j)
       \<or> (\<forall>i j. i < j \<and> j < length depth_points \<longrightarrow> depth_points ! j < depth_points ! i)"
    and "i < length depth_points"
  shows "fill_column (interpolated_column depth_points readings) ! i \<noteq> None
         \<longleftrightarrow> (\<exists>j<length depth_points. interpolated_column depth_points readings ! j \<noteq> None)"
proof -
  let ?c = "interpolated_column depth_points readings"
  have len: "length ?c = length depth_points" by (rule length_interpolated_column)
  show ?thesis
  proof (cases "\<exists>j<length depth_points. ?c ! j \<noteq> None")
    case True
    then obtain j where j: "j < length ?c" "?c ! j \<noteq> None" using len by auto
    have contig: "\<forall>a b c. a < b \<and> b < c \<and> c < length ?c \<and> ?c ! a \<noteq> None \<and> ?c ! c \<noteq> None
                    \<longrightarrow> ?c ! b \<noteq> None"
      using interpolated_column_contiguous[OF assms(1,2)] len by metis
    have "fill_column ?c ! i \<noteq> None"
      using assms(3) len by (intro fill_column_all_valid[OF j _ contig]) simp
    then show ?thesis using True by simp
  next
    case False
    then have "\<forall>j<length ?c. ?c ! j = None" using len by simp
    then have "fill_column ?c = ?c" by (rule fill_column_no_valid)
    then show ?thesis using False assms(3) by simp
  qed
qed

subsection \<open>The run whose last time column has no reading\<close>

lemma stale_depths_run:
  "depth_arrays stale_depths_input \<noteq> []"
  "variables_to_interpolate stale_depths_input \<noteq> []"
  "interpolated_arrays (perform_interpolation stale_depths_input) ''temp''
     = Some stale_depths_grid"
  by code_simp+

lemma stale_depths_readings:
  "valid_readings (extract_var_data (depth_arrays stale_depths_input)
     (times_axis stale_depths_grid) ''temp'') 0 = [(1, 2), (5, 6)]"
  "valid_readings (extract_var_data (depth_arrays stale_depths_input)
     (times_axis stale_depths_grid) ''temp'') 1 = []"
  by code_simp+

lemma stale_depths_sizes:
  "length (times_axis stale_depths_grid) = 2" "length (depths stale_depths_grid) = 7"
  by (simp_all add: stale_depths_grid_def)

lemma scenario_fill_runs:
  "fill_pass_runs (fill_values scenario_input)
     (extract_var_data (depth_arrays scenario_input) (times_axis scenario_grid) ''temp'')
     (length (times_axis scenario_grid))"
  by code_simp

lemma stale_depths_fill_skipped:
  "\<not> fill_pass_runs (fill_values stale_depths_input)
     (extract_var_data (depth_arrays stale_depths_input) (times_axis stale_depths_grid) ''temp'')
     (length (times_axis stale_depths_grid))"
  by code_simp

text \<open>
  Claim C10: in every column of a stored grid the non-missing cells are contiguous. With
  no valid reading no cell is set, with one reading every cell is; with two or more, and
  no fill pass, the cells set are those whose depth lies between the shallowest and the
  deepest reading depth, and the fill pass extends them to both ends of the column
  (every cell is set as soon as one depth point lies in that range). A missing cell never
  lies strictly between two non-missing cells.
\<close>

theorem contiguous_columns:
  assumes "depth_arrays s \<noteq> []" and "variables_to_interpolate s \<noteq> []"
    and "interpolated_arrays (perform_interpolation s) var = Some g"
    and "t_idx < length (times_axis g)"
    and "var_data = extract_var_data (depth_arrays s) (times_axis g) var"
    and "readings = valid_readings var_data t_idx"
  shows "(readings = [] \<longrightarrow> (\<forall>i<length (depths g). data g ! i ! t_idx = None))
       \<and> (length readings = 1 \<longrightarrow> (\<forall>i<length (depths g). data g ! i ! t_idx \<noteq> None))
       \<and> (2 \<le> length readings
            \<and> \<not> fill_pass_runs (fill_values s) var_data (length (times_axis g))
          \<longrightarrow> (\<forall>i<length (depths g).
                 data g ! i ! t_idx \<noteq> None
                 \<longleftrightarrow> Min (fst ` set readings) \<le> depths g ! i
                     \<and> depths g ! i \<le> Max (fst ` set readings)))
       \<and> (2 \<le> length readings
            \<and> fill_pass_runs (fill_values s) var_data (length (times_axis g))
          \<longrightarrow> (\<forall>i<length (depths g).
                 data g ! i ! t_idx \<noteq> None
                 \<longleftrightarrow> (\<exists>j<length (depths g).
                        Min (fst ` set readings) \<le> depths g ! j
                        \<and> depths g ! j \<le> Max (fst ` set readings))))
       \<and> (\<forall>a b c. a < b \<and> b < c \<and> c < length (depths g)
                   \<and> data g ! a ! t_idx \<noteq> None \<and> data g ! c ! t_idx \<noteq> None
             \<longrightarrow> data g ! b ! t_idx \<noteq> None)"
proof -
  let ?dp = "depths g"
  let ?n = "length (times_axis g)"
  let ?runs = "fill_pass_runs (fill_values s) var_data ?n"
  let ?c = "interpolated_column ?dp readings"
  have dist: "distinct (map fst readings)"
    unfolding assms(5,6) by (rule distinct_readings)
  from stored_grid[OF assms(1,2,3)]
  have ax: "depth_axis (depth_resolution s) (max_depth s) = Inr ?dp" by blast
  note mono = depth_axis_monotone[OF ax]
  have cell: "data g ! i ! t_idx = (if ?runs then fill_column ?c ! i else ?c ! i)"
    if "i < length ?dp" for i
    using stored_cell[OF assms(1,2,3,4) that]
    by (simp add: final_column_cases assms(5,6))
  have filled: "fill_column ?c ! i \<noteq> None \<longleftrightarrow> (\<exists>j<length ?dp. ?c ! j \<noteq> None)"
    if "i < length ?dp" for i
    by (rule filled_column_all_or_none[OF dist mono that])
  have p1: "readings = [] \<longrightarrow> (\<forall>i<length ?dp. data g ! i ! t_idx = None)"
  proof (intro impI allI)
    fix i assume r: "readings = []" and i: "i < length ?dp"
    have "\<forall>j<length ?dp. ?c ! j = None" using r by (simp add: interpolated_column_no_reading)
    then show "data g ! i ! t_idx = None" using cell[OF i] filled[OF i] i by auto
  qed
  have p2: "length readings = 1 \<longrightarrow> (\<forall>i<length ?dp. data g ! i ! t_idx \<noteq> None)"
  proof (intro impI allI)
    fix i assume r: "length readings = 1" and i: "i < length ?dp"
    then obtain d v where "readings = [(d, v)]"
      by (cases readings) (auto simp: length_Suc_conv)
    then have "?c ! i \<noteq> None" using i by (simp add: interpolated_column_one_reading)
    then show "data g ! i ! t_idx \<noteq> None" using cell[OF i] filled[OF i] i by auto
  qed
  have p3: "2 \<le> length readings \<and> \<not> ?runs
      \<longrightarrow> (\<forall>i<length ?dp. data g ! i ! t_idx \<noteq> None
             \<longleftrightarrow> Min (fst ` set readings) \<le> ?dp ! i \<and> ?dp ! i \<le> Max (fst ` set readings))"
  proof (intro impI allI)
    fix i assume r: "2 \<le> length readings \<and> \<not> ?runs" and i: "i < length ?dp"
    show "data g ! i ! t_idx \<noteq> None
          \<longleftrightarrow> Min (fst ` set readings) \<le> ?dp ! i \<and> ?dp ! i \<le> Max (fst ` set readings)"
      using cell[OF i] r column_some_iff[OF dist _ i] by simp
  qed
  have p4: "2 \<le> length readings \<and> ?runs
      \<longrightarrow> (\<forall>i<length ?dp. data g ! i ! t_idx \<noteq> None
             \<longleftrightarrow> (\<exists>j<length ?dp. Min (fst ` set readings) \<le> ?dp ! j
                                  \<and> ?dp ! j \<le> Max (fst ` set readings)))"
  proof (intro impI allI)
    fix i assume r: "2 \<le> length readings \<and> ?runs" and i: "i < length ?dp"
    have "(\<exists>j<length ?dp. ?c ! j \<noteq> None)
          \<longleftrightarrow> (\<exists>j<length ?dp. Min (fst ` set readings) \<le> ?dp ! j
                               \<and> ?dp ! j \<le> Max (fst ` set readings))"
      using column_some_iff[OF dist] r by blast
    then show "data g ! i ! t_idx \<noteq> None
          \<longleftrightarrow> (\<exists>j<length ?dp. Min (fst ` set readings) \<le> ?dp ! j
                               \<and> ?dp ! j \<le> Max (fst ` set readings))"
      using cell[OF i] filled[OF i] r by simp
  qed
  have p5: "\<forall>a b c. a < b \<and> b < c \<and> c < length ?dp
                   \<and> data g ! a ! t_idx \<noteq> None \<and> data g ! c ! t_idx \<noteq> None
             \<longrightarrow> data g ! b ! t_idx \<noteq> None"
  proof (intro allI impI)
    fix a b c
    assume h: "a < b \<and> b < c \<and> c < length ?dp
                 \<and> data g ! a ! t_idx \<noteq> None \<and> data g ! c ! t_idx \<noteq> None"
    then have al: "a < length ?dp" and bl: "b < length ?dp" and cl: "c < length ?dp"
      by simp_all
    show "data g ! b ! t_idx \<noteq> None"
    proof (cases ?runs)
      case True
      then have "fill_column ?c ! a \<noteq> None" using cell[OF al] h by simp
      then have "fill_column ?c ! b \<noteq> None" using filled[OF al] filled[OF bl] by simp
      then show ?thesis using cell[OF bl] True by simp
    next
      case False
      then have "?c ! a \<noteq> None" "?c ! c \<noteq> None" using cell[OF al] cell[OF cl] h by simp_all
      then have "?c ! b \<noteq> None"
        using interpolated_column_contiguous[OF dist mono _ _ cl, of a b] h by blast
      then show ?thesis using cell[OF bl] False by simp
    qed
  qed
  show ?thesis using p1 p2 p3 p4 p5 by blast
qed

theorem contiguous_columns_witness:
  "depth_arrays scenario_input \<noteq> []
   \<and> variables_to_interpolate scenario_input \<noteq> []
   \<and> interpolated_arrays (perform_interpolation scenario_input) ''temp'' = Some scenario_grid
   \<and> data scenario_grid ! 3 ! 0 = None
   \<and> data scenario_grid ! 3 ! 1 \<noteq> None
   \<and> data scenario_grid ! 0 ! 2 \<noteq> None
   \<and> data scenario_grid ! 11 ! 2 \<noteq> None
   \<and> depth_arrays stale_depths_input \<noteq> []
   \<and> variables_to_interpolate stale_depths_input \<noteq> []
   \<and> interpolated_arrays (perform_interpolation stale_depths_input) ''temp''
       = Some stale_depths_grid
   \<and> data stale_depths_grid ! 0 ! 0 = None
   \<and> data stale_depths_grid ! 3 ! 0 \<noteq> None
   \<and> data stale_depths_grid ! 6 ! 0 = None"
proof -
  let ?vd = "extract_var_data (depth_arrays scenario_input) (times_axis scenario_grid) ''temp''"
  let ?vd' = "extract_var_data (depth_arrays stale_depths_input)
                (times_axis stale_depths_grid) ''temp''"
  have t0: "0 < length (times_axis scenario_grid)" and t1: "1 < length (times_axis scenario_grid)"
    and t2: "2 < length (times_axis scenario_grid)"
    by (simp_all add: scenario_sizes)
  have dep: "depths scenario_grid ! 2 = 2" by (simp add: scenario_grid_def)
  have a: "data scenario_grid ! 3 ! 0 = None"
    using contiguous_columns[OF scenario_run t0 refl refl] scenario_readings(1)
    by (simp add: scenario_sizes)
  have b: "data scenario_grid ! 3 ! 1 \<noteq> None"
    using contiguous_columns[OF scenario_run t1 refl refl] scenario_readings(2)
    by (simp add: scenario_sizes)
  have "\<forall>i<length (depths scenario_grid).
          data scenario_grid ! i ! 2 \<noteq> None
          \<longleftrightarrow> (\<exists>j<length (depths scenario_grid).
                 Min (fst ` set (valid_readings ?vd 2)) \<le> depths scenario_grid ! j
                 \<and> depths scenario_grid ! j \<le> Max (fst ` set (valid_readings ?vd 2)))"
    using contiguous_columns[OF scenario_run t2 refl refl] scenario_fill_runs
    by (simp add: scenario_readings(3))
  moreover have "\<exists>j<length (depths scenario_grid).
                 Min (fst ` set (valid_readings ?vd 2)) \<le> depths scenario_grid ! j
                 \<and> depths scenario_grid ! j \<le> Max (fst ` set (valid_readings ?vd 2))"
    by (rule exI[of _ 2]) (simp add: scenario_readings(3) dep scenario_sizes)
  ultimately have c: "data scenario_grid ! 0 ! 2 \<noteq> None" "data scenario_grid ! 11 ! 2 \<noteq> None"
    by (simp_all add: scenario_sizes)
  have s0: "0 < length (times_axis stale_depths_grid)" by (simp add: stale_depths_sizes)
  have deps: "depths stale_depths_grid ! 0 = 0" "depths stale_depths_grid ! 3 = 3"
    "depths stale_depths_grid ! 6 = 6"
    by (simp_all add: stale_depths_grid_def)
  have iff: "data stale_depths_grid ! i ! 0 \<noteq> None
          \<longleftrightarrow> Min (fst ` set (valid_readings ?vd' 0)) \<le> depths stale_depths_grid ! i
              \<and> depths stale_depths_grid ! i \<le> Max (fst ` set (valid_readings ?vd' 0))"
    if "i < length (depths stale_depths_grid)" for i
    using contiguous_columns[OF stale_depths_run s0 refl refl] stale_depths_fill_skipped that
    by (simp add: stale_depths_readings(1))
  have d: "data stale_depths_grid ! 0 ! 0 = None" "data stale_depths_grid ! 3 ! 0 \<noteq> None"
    "data stale_depths_grid ! 6 ! 0 = None"
    using iff[of 0] iff[of 3] iff[of 6]
    by (simp_all add: stale_depths_sizes stale_depths_readings(1) deps)
  show ?thesis using scenario_run stale_depths_run a b c d by blast
qed

subsection \<open>Monotone readings give a monotone column\<close>

lemma interp_cell_value:
  assumes "sorted_wrt (<) dss" and "dss \<noteq> []"
    and "interp_cell dss vss d None = Some a"
  shows "\<exists>i<length dss. i = searchsorted dss d \<and> d \<le> dss ! i \<and> (\<forall>j<i. dss ! j < d)
           \<and> a = (if i = 0 \<or> d = dss ! i then vss ! i
                  else vss ! (i - 1)
                       + (d - dss ! (i - 1)) / (dss ! i - dss ! (i - 1)) * (vss ! i - vss ! (i - 1)))"
proof -
  let ?i = "searchsorted dss d"
  have rng: "dss ! 0 \<le> d" "d \<le> last dss"
    using assms(3) interp_cell_some_iff[of dss vss d] by simp_all
  have below: "\<forall>j<?i. dss ! j < d" using searchsorted_below by blast
  have lt: "?i < length dss"
  proof (rule ccontr)
    assume "\<not> ?i < length dss"
    then have "?i = length dss" using searchsorted_le_length[of dss d] by simp
    then have "dss ! (length dss - 1) < d" using below assms(2) by simp
    then show False using rng(2) assms(2) by (simp add: last_conv_nth)
  qed
  have above: "d \<le> dss ! ?i" by (rule searchsorted_above[OF lt])
  define blend where "blend = (1 - (d - dss ! (?i - 1)) / (dss ! ?i - dss ! (?i - 1))) * vss ! (?i - 1)
            + (d - dss ! (?i - 1)) / (dss ! ?i - dss ! (?i - 1)) * vss ! ?i"
  have code: "interp_cell dss vss d None
        = Some (if ?i = 0 then vss ! 0 else if d = dss ! ?i then vss ! ?i else blend)"
    using rng lt by (simp add: interp_cell_def Let_def blend_def)
  define w where "w = (d - dss ! (?i - 1)) / (dss ! ?i - dss ! (?i - 1))"
  have "(1 - w) * vss ! (?i - 1) + w * vss ! ?i
          = vss ! (?i - 1) + w * (vss ! ?i - vss ! (?i - 1))"
    by (simp add: algebra_simps)
  then have blend_eq: "blend = vss ! (?i - 1)
       + (d - dss ! (?i - 1)) / (dss ! ?i - dss ! (?i - 1)) * (vss ! ?i - vss ! (?i - 1))"
    by (simp only: blend_def w_def)
  have "a = (if ?i = 0 \<or> d = dss ! ?i then vss ! ?i
             else vss ! (?i - 1)
                  + (d - dss ! (?i - 1)) / (dss ! ?i - dss ! (?i - 1)) * (vss ! ?i - vss ! (?i - 1)))"
    using code assms(3) blend_eq by (auto split: if_splits)
  then show ?thesis using lt above below by blast
qed

lemma blend_bounds:
  fixes vb va :: rat
  assumes "db < d" and "d < da" and "vb \<le> va"
  shows "vb \<le> vb + (d - db) / (da - db) * (va - vb)"
    and "vb + (d - db) / (da - db) * (va - vb) \<le> va"
proof -
  define w where "w = (d - db) / (da - db)"
  have w0: "0 \<le> w" and w1: "w \<le> 1" using assms(1,2) by (simp_all add: w_def)
  have "0 \<le> w * (va - vb)" using w0 assms(3) by simp
  then show "vb \<le> vb + (d - db) / (da - db) * (va - vb)" by (simp add: w_def)
  have "w * (va - vb) \<le> 1 * (va - vb)" using w1 assms(3) by (intro mult_right_mono) simp_all
  then show "vb + (d - db) / (da - db) * (va - vb) \<le> va" by (simp add: w_def)
qed

lemma blend_mono:
  fixes vb va :: rat
  assumes "db < da" and "d \<le> d'" and "vb \<le> va"
  shows "vb + (d - db) / (da - db) * (va - vb) \<le> vb + (d' - db) / (da - db) * (va - vb)"
proof -
  have "(d - db) / (da - db) \<le> (d' - db) / (da - db)"
    using assms(1,2) by (simp add: divide_right_mono)
  then have "(d - db) / (da - db) * (va - vb) \<le> (d' - db) / (da - db) * (va - vb)"
    using assms(3) by (intro mult_right_mono) simp_all
  then show ?thesis by simp
qed

lemma interp_cell_mono:
  assumes "sorted_wrt (<) dss" and "dss \<noteq> []"
    and "\<forall>j k. j \<le> k \<and> k < length dss \<longrightarrow> vss ! j \<le> vss ! k"
    and "d \<le> d'"
    and "interp_cell dss vss d None = Some a" and "interp_cell dss vss d' None = Some b"
  shows "a \<le> b"
proof -
  from interp_cell_value[OF assms(1,2,5)] obtain i where
    i: "i < length dss" "d \<le> dss ! i" "\<forall>j<i. dss ! j < d"
    and a: "a = (if i = 0 \<or> d = dss ! i then vss ! i
                 else vss ! (i - 1)
                      + (d - dss ! (i - 1)) / (dss ! i - dss ! (i - 1)) * (vss ! i - vss ! (i - 1)))"
    by blast
  from interp_cell_value[OF assms(1,2,6)] obtain i' where
    i': "i' < length dss" "d' \<le> dss ! i'" "\<forall>j<i'. dss ! j < d'"
    and b: "b = (if i' = 0 \<or> d' = dss ! i' then vss ! i'
                 else vss ! (i' - 1)
                      + (d' - dss ! (i' - 1)) / (dss ! i' - dss ! (i' - 1))
                        * (vss ! i' - vss ! (i' - 1)))"
    by blast
  have vmono: "\<And>j k. j \<le> k \<Longrightarrow> k < length dss \<Longrightarrow> vss ! j \<le> vss ! k"
    using assms(3) by blast
  have upper: "a \<le> vss ! i"
  proof (cases "i = 0 \<or> d = dss ! i")
    case True
    then show ?thesis using a by simp
  next
    case False
    then have "dss ! (i - 1) < d" "d < dss ! i" using i(2,3) by simp_all
    moreover have "vss ! (i - 1) \<le> vss ! i" using vmono[of "i - 1" i] i(1) by simp
    ultimately show ?thesis using a False blend_bounds(2) by simp
  qed
  have lower: "vss ! (i' - 1) \<le> b" if "0 < i'"
  proof (cases "d' = dss ! i'")
    case True
    then show ?thesis using b vmono[of "i' - 1" i'] i'(1) by simp
  next
    case False
    then have "dss ! (i' - 1) < d'" "d' < dss ! i'" using i'(2,3) that by simp_all
    moreover have "vss ! (i' - 1) \<le> vss ! i'" using vmono[of "i' - 1" i'] i'(1) by simp
    ultimately show ?thesis using b False that blend_bounds(1) by simp
  qed
  have le: "i \<le> i'"
  proof (rule ccontr)
    assume "\<not> i \<le> i'"
    then have "dss ! i' < d" using i(3) by simp
    then show False using i'(2) assms(4) by simp
  qed
  show ?thesis
  proof (cases "i < i'")
    case True
    then have "vss ! i \<le> vss ! (i' - 1)" using vmono[of i "i' - 1"] i'(1) by simp
    then show ?thesis using upper lower True by simp
  next
    case False
    then have eq: "i' = i" using le by simp
    show ?thesis
    proof (cases "i = 0 \<or> d' = dss ! i")
      case True
      then show ?thesis
      proof
        assume "i = 0" then show ?thesis using a b eq by simp
      next
        assume "d' = dss ! i" then show ?thesis using b eq upper by simp
      qed
    next
      case False
      then have pos: "0 < i" and ne': "d' \<noteq> dss ! i" by simp_all
      have ne: "d \<noteq> dss ! i" using assms(4) i'(2) ne' eq by simp
      have seg: "dss ! (i - 1) < dss ! i"
        using strict_sorted_nth_less[OF assms(1), of "i - 1" i] pos i(1) by simp
      have vb: "vss ! (i - 1) \<le> vss ! i" using vmono[of "i - 1" i] i(1) by simp
      have "a = vss ! (i - 1)
                + (d - dss ! (i - 1)) / (dss ! i - dss ! (i - 1)) * (vss ! i - vss ! (i - 1))"
        using a pos ne by simp
      moreover have "b = vss ! (i - 1)
                + (d' - dss ! (i - 1)) / (dss ! i - dss ! (i - 1)) * (vss ! i - vss ! (i - 1))"
        using b eq pos ne' by simp
      ultimately show ?thesis using blend_mono[OF seg assms(4) vb] by simp
    qed
  qed
qed

lemma column_mono:
  assumes "distinct (map fst readings)"
    and "\<forall>(d, v)\<in>set readings. \<forall>(d', v')\<in>set readings. d \<le> d' \<longrightarrow> v \<le> v'"
    and "i < length depth_points" and "j < length depth_points"
    and "depth_points ! i \<le> depth_points ! j"
    and "interpolated_column depth_points readings ! i = Some a"
    and "interpolated_column depth_points readings ! j = Some b"
  shows "a \<le> b"
proof -
  consider "readings = []" | d v where "readings = [(d, v)]" | "2 \<le> length readings"
  proof (cases readings)
    case Nil
    then show ?thesis using that by simp
  next
    case (Cons x xs)
    then show ?thesis using that by (cases xs; cases x) auto
  qed
  then show ?thesis
  proof cases
    case 1
    then show ?thesis using assms(3,6) by (simp add: interpolated_column_no_reading)
  next
    case 2
    then show ?thesis using assms(3,4,6,7) by (simp add: interpolated_column_one_reading)
  next
    case 3
    from interpolated_column_readings[OF assms(1) 3, of depth_points]
    obtain dss vss where S: "sorted_wrt (<) dss" "length dss = length readings"
      "length vss = length readings" "set (zip dss vss) = set readings"
      "\<forall>i<length depth_points.
         interpolated_column depth_points readings ! i = interp_cell dss vss (depth_points ! i) None"
      by blast
    have ne: "dss \<noteq> []" using S(2) 3 by auto
    have mem: "\<And>k. k < length dss \<Longrightarrow> (dss ! k, vss ! k) \<in> set readings"
      using S(2,3,4) by (metis in_set_zip fst_conv snd_conv)
    have vm: "\<forall>j k. j \<le> k \<and> k < length dss \<longrightarrow> vss ! j \<le> vss ! k"
    proof (intro allI impI)
      fix j k assume jk: "j \<le> k \<and> k < length dss"
      then have "dss ! j \<le> dss ! k" using strict_sorted_nth_le[OF S(1)] by blast
      moreover have "(dss ! j, vss ! j) \<in> set readings" "(dss ! k, vss ! k) \<in> set readings"
        using mem jk by simp_all
      ultimately show "vss ! j \<le> vss ! k" using assms(2) by blast
    qed
    have "interp_cell dss vss (depth_points ! i) None = Some a"
      "interp_cell dss vss (depth_points ! j) None = Some b"
      using S(5) assms(3,4,6,7) by simp_all
    from interp_cell_mono[OF S(1) ne vm assms(5) this] show ?thesis .
  qed
qed

lemma filled_column_mono:
  assumes "distinct (map fst readings)"
    and "\<forall>(d, v)\<in>set readings. \<forall>(d', v')\<in>set readings. d \<le> d' \<longrightarrow> v \<le> v'"
    and "(\<forall>i j. i < j \<and> j < length depth_points \<longrightarrow> depth_points ! i < depth_points ! j)
       \<or> (\<forall>i j. i < j \<and> j < length depth_points \<longrightarrow> depth_points ! j < depth_points ! i)"
    and "i < length depth_points" and "j < length depth_points"
    and "depth_points ! i \<le> depth_points ! j"
    and "fill_column (interpolated_column depth_points readings) ! i = Some a"
    and "fill_column (interpolated_column depth_points readings) ! j = Some b"
  shows "a \<le> b"
proof -
  let ?c = "interpolated_column depth_points readings"
  let ?valid = "filter (\<lambda>i. ?c ! i \<noteq> None) [0..<length ?c]"
  have len: "length ?c = length depth_points" by (rule length_interpolated_column)
  have "\<not> (\<forall>k<length ?c. ?c ! k = None)"
  proof
    assume "\<forall>k<length ?c. ?c ! k = None"
    then have "fill_column ?c = ?c" "?c ! i = None"
      using fill_column_no_valid[of ?c] assms(4) len by simp_all
    then show False using assms(7) by simp
  qed
  then obtain k where k: "k < length ?c" "?c ! k \<noteq> None" by blast
  note V = first_valid_index[OF k]
  define lo where "lo = hd ?valid"
  define hi where "hi = last ?valid"
  define clamp where "clamp = (\<lambda>x. if x < lo then lo else if x \<le> hi then x else hi)"
  have lohi: "lo \<le> hi" "hi < length depth_points"
    using V(2,3,5) len by (simp_all add: lo_def hi_def)
  have cl_len: "\<And>x. x < length depth_points \<Longrightarrow> clamp x < length depth_points"
    using lohi by (simp add: clamp_def)
  have cl_mono: "\<And>x y. x \<le> y \<Longrightarrow> clamp x \<le> clamp y"
    using lohi by (auto simp: clamp_def)
  have nth: "\<And>x. x < length depth_points \<Longrightarrow> fill_column ?c ! x = ?c ! clamp x"
    using fill_column_nth[OF V(1)] len by (simp add: clamp_def lo_def hi_def)
  have ci: "?c ! clamp i = Some a" and cj: "?c ! clamp j = Some b"
    using nth assms(4,5,7,8) by simp_all
  have axis_le: "depth_points ! x \<le> depth_points ! y"
    if "x \<le> y" "y < length depth_points"
       "\<forall>i j. i < j \<and> j < length depth_points \<longrightarrow> depth_points ! i < depth_points ! j"
    for x y
    using that by (cases "x = y") (auto simp: less_imp_le)
  have axis_ge: "depth_points ! y \<le> depth_points ! x"
    if "x \<le> y" "y < length depth_points"
       "\<forall>i j. i < j \<and> j < length depth_points \<longrightarrow> depth_points ! j < depth_points ! i"
    for x y
    using that by (cases "x = y") (auto simp: less_imp_le)
  have "depth_points ! clamp i \<le> depth_points ! clamp j"
    using assms(3)
  proof
    assume inc: "\<forall>i j. i < j \<and> j < length depth_points \<longrightarrow> depth_points ! i < depth_points ! j"
    have "\<not> j < i" using inc assms(4,6) by (metis not_le)
    then have "clamp i \<le> clamp j" using cl_mono by simp
    then show ?thesis using axis_le[OF _ cl_len[OF assms(5)] inc] by simp
  next
    assume dec: "\<forall>i j. i < j \<and> j < length depth_points \<longrightarrow> depth_points ! j < depth_points ! i"
    have "\<not> i < j" using dec assms(5,6) by (metis not_le)
    then have "clamp j \<le> clamp i" using cl_mono by simp
    then show ?thesis using axis_ge[OF _ cl_len[OF assms(4)] dec] by simp
  qed
  from column_mono[OF assms(1,2) cl_len[OF assms(4)] cl_len[OF assms(5)] this ci cj]
  show ?thesis .
qed

text \<open>
  In exact arithmetic the columns stored by a run are monotone wherever the readings are.
\<close>

lemma stored_column_monotone:
  assumes "depth_arrays s \<noteq> []" and "variables_to_interpolate s \<noteq> []"
    and "interpolated_arrays (perform_interpolation s) var = Some g"
    and "t_idx < length (times_axis g)"
    and "readings = valid_readings (extract_var_data (depth_arrays s) (times_axis g) var) t_idx"
    and "\<forall>(d, v)\<in>set readings. \<forall>(d', v')\<in>set readings. d \<le> d' \<longrightarrow> v \<le> v'"
    and "i < length (depths g)" and "j < length (depths g)"
    and "depths g ! i \<le> depths g ! j"
    and "data g ! i ! t_idx = Some a" and "data g ! j ! t_idx = Some b"
  shows "a \<le> b"
proof -
  let ?vd = "extract_var_data (depth_arrays s) (times_axis g) var"
  let ?runs = "fill_pass_runs (fill_values s) ?vd (length (times_axis g))"
  let ?c = "interpolated_column (depths g) readings"
  have dist: "distinct (map fst readings)"
    unfolding assms(5) by (rule distinct_readings)
  from stored_grid[OF assms(1,2,3)]
  have ax: "depth_axis (depth_resolution s) (max_depth s) = Inr (depths g)" by blast
  note mono = depth_axis_monotone[OF ax]
  have cell: "data g ! x ! t_idx = (if ?runs then fill_column ?c ! x else ?c ! x)"
    if "x < length (depths g)" for x
    using stored_cell[OF assms(1,2,3,4) that]
    by (simp add: final_column_cases assms(5))
  show ?thesis
  proof (cases ?runs)
    case True
    then have "fill_column ?c ! i = Some a" "fill_column ?c ! j = Some b"
      using cell assms(7,8,10,11) by simp_all
    from filled_column_mono[OF dist assms(6) mono assms(7,8,9) this] show ?thesis .
  next
    case False
    then have "?c ! i = Some a" "?c ! j = Some b"
      using cell assms(7,8,10,11) by simp_all
    from column_mono[OF dist assms(6,7,8,9) this] show ?thesis .
  qed
qed

subsection \<open>Monotone readings on doubles\<close>

lemma weight_error:
  fixes p q u :: rat
  assumes err: "\<forall>x. \<bar>rnd x - x\<bar> \<le> u * \<bar>x\<bar>" and u: "0 \<le> u" "u \<le> 1 / 8"
    and p: "0 < p" and pq: "p \<le> q"
  shows "\<bar>rnd (rnd p / rnd q) - p / q\<bar> \<le> 4 * u"
proof -
  have q: "0 < q" using p pq by simp
  have m: "0 < 1 - u" "0 < 1 + u" using u by simp_all
  note rp = rounding_interval[OF err less_imp_le[OF p]]
  note rq = rounding_interval[OF err less_imp_le[OF q]]
  have lq: "0 < (1 - u) * q" using m(1) q by simp
  have xq: "0 < rnd q" using lq rq(1) by simp
  have xp: "0 \<le> rnd p"
  proof -
    have "0 \<le> (1 - u) * p" using m(1) p by simp
    then show ?thesis using rp(1) by simp
  qed
  have y0: "0 \<le> rnd p / rnd q" using xp xq by simp
  note ry = rounding_interval[OF err y0]
  define t where "t = p / q"
  have t: "0 \<le> t" "t \<le> 1" using p q pq by (simp_all add: t_def)
  have yhi: "rnd p / rnd q \<le> ((1 + u) * p) / ((1 - u) * q)"
    using rp(2) rq(1) xp lq by (intro frac_le) simp_all
  have ylo: "((1 - u) * p) / ((1 + u) * q) \<le> rnd p / rnd q"
  proof -
    have "0 \<le> (1 - u) * p" using m(1) p by simp
    then show ?thesis using rp(1) rq(2) xq by (intro frac_le) simp_all
  qed
  have hi_eq: "((1 + u) * p) / ((1 - u) * q) = (1 + u) / (1 - u) * t"
    by (simp add: t_def)
  have lo_eq: "((1 - u) * p) / ((1 + u) * q) = (1 - u) / (1 + u) * t"
    by (simp add: t_def)
  have whi: "rnd (rnd p / rnd q) \<le> (1 + u) * ((1 + u) / (1 - u) * t)"
  proof -
    have "(1 + u) * (rnd p / rnd q) \<le> (1 + u) * ((1 + u) / (1 - u) * t)"
      using yhi[unfolded hi_eq] m(2) by (intro mult_left_mono) simp_all
    then show ?thesis using ry(2) by simp
  qed
  have wlo: "(1 - u) * ((1 - u) / (1 + u) * t) \<le> rnd (rnd p / rnd q)"
  proof -
    have "(1 - u) * ((1 - u) / (1 + u) * t) \<le> (1 - u) * (rnd p / rnd q)"
      using ylo[unfolded lo_eq] m(1) by (intro mult_left_mono) simp_all
    then show ?thesis using ry(1) by simp
  qed
  have c1: "(1 + u) * ((1 + u) / (1 - u)) \<le> 1 + 4 * u"
  proof -
    have "(1 + 4 * u) * (1 - u) - (1 + u) * (1 + u) = u * (1 - 5 * u)"
      by (simp add: algebra_simps)
    moreover have "0 \<le> u * (1 - 5 * u)" using u by (intro mult_nonneg_nonneg) simp_all
    ultimately have "(1 + u) * (1 + u) \<le> (1 + 4 * u) * (1 - u)" by simp
    then have "(1 + u) * (1 + u) / (1 - u) \<le> 1 + 4 * u"
      using m(1) by (simp add: pos_divide_le_eq)
    then show ?thesis by simp
  qed
  have c2: "1 - 4 * u \<le> (1 - u) * ((1 - u) / (1 + u))"
  proof -
    have "(1 - u) * (1 - u) - (1 - 4 * u) * (1 + u) = u * (1 + 5 * u)"
      by (simp add: algebra_simps)
    moreover have "0 \<le> u * (1 + 5 * u)" using u by (intro mult_nonneg_nonneg) simp_all
    ultimately have "(1 - 4 * u) * (1 + u) \<le> (1 - u) * (1 - u)" by simp
    then have "1 - 4 * u \<le> (1 - u) * (1 - u) / (1 + u)"
      using m(2) by (simp add: pos_le_divide_eq)
    then show ?thesis by simp
  qed
  have "(1 + u) * ((1 + u) / (1 - u)) * t \<le> (1 + 4 * u) * t"
    using c1 t(1) by (rule mult_right_mono)
  then have up: "rnd (rnd p / rnd q) \<le> (1 + 4 * u) * t" using whi by (simp add: mult.assoc)
  have "(1 - 4 * u) * t \<le> (1 - u) * ((1 - u) / (1 + u)) * t"
    using c2 t(1) by (rule mult_right_mono)
  then have dn: "(1 - 4 * u) * t \<le> rnd (rnd p / rnd q)" using wlo by (simp add: mult.assoc)
  have ut: "4 * u * t \<le> 4 * u"
  proof -
    have "4 * u * t \<le> 4 * u * 1" using t(2) u(1) by (intro mult_left_mono) simp_all
    then show ?thesis by simp
  qed
  have "rnd (rnd p / rnd q) - t \<le> 4 * u" using up ut by (simp add: algebra_simps)
  moreover have "- (4 * u) \<le> rnd (rnd p / rnd q) - t" using dn ut by (simp add: algebra_simps)
  ultimately show ?thesis unfolding t_def by (simp add: abs_le_iff)
qed

lemma rounding_abs:
  assumes "\<forall>x. \<bar>rnd x - x\<bar> \<le> u * \<bar>x\<bar>" and "\<bar>x\<bar> \<le> (c::rat)" and "0 \<le> u"
  shows "\<bar>rnd x - x\<bar> \<le> u * c"
proof -
  have "\<bar>rnd x - x\<bar> \<le> u * \<bar>x\<bar>" using assms(1) by blast
  also have "u * \<bar>x\<bar> \<le> u * c" using assms(2,3) by (rule mult_left_mono)
  finally show ?thesis .
qed

lemma product_error:
  fixes w w0 v V :: rat
  assumes "\<bar>w - w0\<bar> \<le> e" and "\<bar>v\<bar> \<le> V"
  shows "\<bar>w * v - w0 * v\<bar> \<le> e * V"
proof -
  have e0: "0 \<le> e" using assms(1) by (meson abs_ge_zero order_trans)
  have "\<bar>w * v - w0 * v\<bar> = \<bar>w - w0\<bar> * \<bar>v\<bar>" by (simp add: abs_mult left_diff_distrib[symmetric])
  also have "\<dots> \<le> e * V" using assms e0 by (intro mult_mono) simp_all
  finally show ?thesis .
qed

lemma product_bound:
  fixes w v c V :: rat
  assumes "\<bar>w\<bar> \<le> c" and "\<bar>v\<bar> \<le> V"
  shows "\<bar>w * v\<bar> \<le> c * V"
proof -
  have c0: "0 \<le> c" using assms(1) by (meson abs_ge_zero order_trans)
  have "\<bar>w * v\<bar> = \<bar>w\<bar> * \<bar>v\<bar>" by (simp add: abs_mult)
  also have "\<dots> \<le> c * V" using assms c0 by (intro mult_mono) simp_all
  finally show ?thesis .
qed

lemma blend_error:
  fixes w w0 vb va u V :: rat
  assumes err: "\<forall>x. \<bar>rnd x - x\<bar> \<le> u * \<bar>x\<bar>" and u: "0 \<le> u" "u \<le> 1 / 8"
    and w: "\<bar>w - w0\<bar> \<le> 4 * u" and w0: "0 \<le> w0" "w0 \<le> 1"
    and vb: "\<bar>vb\<bar> \<le> V" and va: "\<bar>va\<bar> \<le> V"
  shows "\<bar>rnd (rnd (rnd (1 - w) * vb) + rnd (w * va)) - ((1 - w0) * vb + w0 * va)\<bar> \<le> 17 * u * V"
proof -
  have V0: "0 \<le> V" using vb by (meson abs_ge_zero order_trans)
  have uV: "0 \<le> u * V" using u(1) V0 by simp
  have u4: "4 * u \<le> 1 / 2" using u(2) by simp
  have aw: "\<bar>w\<bar> \<le> 3 / 2"
  proof -
    have "\<bar>w\<bar> \<le> \<bar>w - w0\<bar> + \<bar>w0\<bar>" by simp
    then show ?thesis using w w0 u4 by simp
  qed
  have a1w: "\<bar>1 - w\<bar> \<le> 3 / 2"
  proof -
    have "\<bar>1 - w\<bar> \<le> \<bar>w0 - w\<bar> + \<bar>1 - w0\<bar>" by simp
    moreover have "\<bar>w0 - w\<bar> = \<bar>w - w0\<bar>" by (rule abs_minus_commute)
    ultimately show ?thesis using w w0 u4 by simp
  qed
  define wb where "wb = rnd (1 - w)"
  have wb1: "\<bar>wb - (1 - w)\<bar> \<le> u * (3 / 2)"
    unfolding wb_def by (rule rounding_abs[OF err a1w u(1)])
  have wb2: "\<bar>wb - (1 - w0)\<bar> \<le> 6 * u"
  proof -
    have "\<bar>wb - (1 - w0)\<bar> \<le> \<bar>wb - (1 - w)\<bar> + \<bar>w0 - w\<bar>" by simp
    moreover have "\<bar>w0 - w\<bar> = \<bar>w - w0\<bar>" by (rule abs_minus_commute)
    ultimately show ?thesis using wb1 w u(1) by simp
  qed
  have awb: "\<bar>wb\<bar> \<le> 2"
  proof -
    have "\<bar>wb\<bar> \<le> \<bar>wb - (1 - w0)\<bar> + \<bar>1 - w0\<bar>" by simp
    then show ?thesis using wb2 w0 u(2) by simp
  qed
  define p1 where "p1 = rnd (wb * vb)"
  define p2 where "p2 = rnd (w * va)"
  have p1a: "\<bar>p1 - wb * vb\<bar> \<le> u * (2 * V)"
    unfolding p1_def by (rule rounding_abs[OF err product_bound[OF awb vb] u(1)])
  have p1b: "\<bar>wb * vb - (1 - w0) * vb\<bar> \<le> 6 * u * V"
    by (rule product_error[OF wb2 vb])
  have p1: "\<bar>p1 - (1 - w0) * vb\<bar> \<le> 8 * u * V"
  proof -
    have "\<bar>p1 - (1 - w0) * vb\<bar> \<le> \<bar>p1 - wb * vb\<bar> + \<bar>wb * vb - (1 - w0) * vb\<bar>" by simp
    then show ?thesis using p1a p1b by simp
  qed
  have p2a: "\<bar>p2 - w * va\<bar> \<le> u * (3 / 2 * V)"
    unfolding p2_def by (rule rounding_abs[OF err product_bound[OF aw va] u(1)])
  have p2b: "\<bar>w * va - w0 * va\<bar> \<le> 4 * u * V"
    by (rule product_error[OF w va])
  have p2: "\<bar>p2 - w0 * va\<bar> \<le> 6 * u * V"
  proof -
    have "\<bar>p2 - w0 * va\<bar> \<le> \<bar>p2 - w * va\<bar> + \<bar>w * va - w0 * va\<bar>" by simp
    then show ?thesis using p2a p2b uV by simp
  qed
  define r0 where "r0 = (1 - w0) * vb + w0 * va"
  have s: "\<bar>p1 + p2 - r0\<bar> \<le> 14 * u * V"
  proof -
    have "p1 + p2 - r0 = (p1 - (1 - w0) * vb) + (p2 - w0 * va)" by (simp add: r0_def)
    then have "\<bar>p1 + p2 - r0\<bar> \<le> \<bar>p1 - (1 - w0) * vb\<bar> + \<bar>p2 - w0 * va\<bar>"
      by (simp only: abs_triangle_ineq)
    then show ?thesis using p1 p2 by simp
  qed
  have ar0: "\<bar>r0\<bar> \<le> V"
  proof -
    have "\<bar>r0\<bar> \<le> \<bar>(1 - w0) * vb\<bar> + \<bar>w0 * va\<bar>" unfolding r0_def by (rule abs_triangle_ineq)
    moreover have "\<bar>(1 - w0) * vb\<bar> \<le> (1 - w0) * V"
      using w0 by (intro product_bound[OF _ vb]) simp
    moreover have "\<bar>w0 * va\<bar> \<le> w0 * V"
      using w0 by (intro product_bound[OF _ va]) simp
    moreover have "(1 - w0) * V + w0 * V = V" by (simp add: algebra_simps)
    ultimately show ?thesis by simp
  qed
  have as: "\<bar>p1 + p2\<bar> \<le> 3 * V"
  proof -
    have "\<bar>p1 + p2\<bar> \<le> \<bar>p1 + p2 - r0\<bar> + \<bar>r0\<bar>" by simp
    moreover have "u * V \<le> 1 / 8 * V"
      using u(2) V0 by (rule mult_right_mono)
    moreover have "14 * u * V = 14 * (u * V)" by simp
    ultimately show ?thesis using s ar0 V0 by linarith
  qed
  have r: "\<bar>rnd (p1 + p2) - (p1 + p2)\<bar> \<le> u * (3 * V)"
    by (rule rounding_abs[OF err as u(1)])
  have "\<bar>rnd (p1 + p2) - r0\<bar> \<le> \<bar>rnd (p1 + p2) - (p1 + p2)\<bar> + \<bar>p1 + p2 - r0\<bar>" by simp
  then have "\<bar>rnd (p1 + p2) - r0\<bar> \<le> 17 * u * V" using r s uV by simp
  then show ?thesis unfolding r0_def p1_def p2_def wb_def by simp
qed

lemma interp_cell_rounded_error:
  assumes err: "\<forall>x. \<bar>rnd x - x\<bar> \<le> u * \<bar>x\<bar>" and u: "0 \<le> u" "u \<le> 1 / 8"
    and srt: "sorted_wrt (<) dss" and ne: "dss \<noteq> []"
    and bnd: "\<forall>k<length dss. \<bar>vss ! k\<bar> \<le> V"
  shows "(interp_cell_rounded rnd dss vss d None = None \<and> interp_cell dss vss d None = None)
       \<or> (\<exists>a a0. interp_cell_rounded rnd dss vss d None = Some a
              \<and> interp_cell dss vss d None = Some a0 \<and> \<bar>a - a0\<bar> \<le> 17 * u * V)"
proof -
  let ?i = "searchsorted dss d"
  have V0: "0 \<le> V"
  proof -
    have "0 < length dss" using ne by simp
    then have "\<bar>vss ! 0\<bar> \<le> V" using bnd by blast
    then show ?thesis by (meson abs_ge_zero order_trans)
  qed
  have z: "\<bar>x - x\<bar> \<le> 17 * u * V" for x :: rat using u(1) V0 by simp
  show ?thesis
  proof (cases "dss ! 0 \<le> d \<and> d \<le> last dss")
    case False
    have "interp_cell_rounded rnd dss vss d None = None"
      unfolding interp_cell_rounded_def by (rule if_not_P) (rule False)
    moreover have "interp_cell dss vss d None = None"
      by (rule interp_cell_out_of_range[OF False])
    ultimately show ?thesis by blast
  next
    case rng: True
    show ?thesis
    proof (cases "?i = 0 \<or> ?i = length dss \<or> d = dss ! ?i")
      case True
      then have "interp_cell_rounded rnd dss vss d None = interp_cell dss vss d None"
        using rng by (auto simp add: interp_cell_rounded_def interp_cell_def Let_def)
      moreover have "\<exists>a0. interp_cell dss vss d None = Some a0"
        using rng by (simp add: interp_cell_def Let_def)
      ultimately show ?thesis using z by auto
    next
      case False
      then have i0: "0 < ?i" and il: "?i < length dss" and dne: "d \<noteq> dss ! ?i"
        using searchsorted_le_length[of dss d] by simp_all
      have lo: "dss ! (?i - 1) < d" using searchsorted_below[of "?i - 1" dss d] i0 by simp
      have "d \<le> dss ! ?i" by (rule searchsorted_above[OF il])
      then have hi: "d < dss ! ?i" using dne by simp
      define p where "p = d - dss ! (?i - 1)"
      define q where "q = dss ! ?i - dss ! (?i - 1)"
      define w where "w = rnd (rnd p / rnd q)"
      have p: "0 < p" and pq: "p \<le> q" using lo hi by (simp_all add: p_def q_def)
      have q: "0 < q" using p pq by simp
      have we: "\<bar>w - p / q\<bar> \<le> 4 * u"
        unfolding w_def by (rule weight_error[OF err u p pq])
      have w0: "0 \<le> p / q" "p / q \<le> 1" using p q pq by simp_all
      have vb: "\<bar>vss ! (?i - 1)\<bar> \<le> V" using bnd il by simp
      have va: "\<bar>vss ! ?i\<bar> \<le> V" using bnd il by simp
      note be = blend_error[OF err u we w0 vb va]
      have r: "interp_cell_rounded rnd dss vss d None
          = Some (rnd (rnd (rnd (1 - w) * vss ! (?i - 1)) + rnd (w * vss ! ?i)))"
        using rng False by (simp add: interp_cell_rounded_def Let_def w_def p_def q_def)
      have e: "interp_cell dss vss d None = Some ((1 - p / q) * vss ! (?i - 1) + p / q * vss ! ?i)"
        using rng False by (simp add: interp_cell_def Let_def p_def q_def)
      show ?thesis using r e be by blast
    qed
  qed
qed

lemma length_interpolated_column_rounded:
  "length (interpolated_column_rounded rnd depth_points readings) = length depth_points"
  by (simp add: interpolated_column_rounded_def interp_column_rounded_def Let_def)

lemma column_rounded_error:
  assumes err: "\<forall>x. \<bar>rnd x - x\<bar> \<le> u * \<bar>x\<bar>" and u: "0 \<le> u" "u \<le> 1 / 8"
    and dist: "distinct (map fst readings)"
    and bnd: "\<forall>(d, v)\<in>set readings. \<bar>v\<bar> \<le> V"
    and i: "i < length depth_points"
  shows "(interpolated_column_rounded rnd depth_points readings ! i = None
          \<and> interpolated_column depth_points readings ! i = None)
       \<or> (\<exists>a a0. interpolated_column_rounded rnd depth_points readings ! i = Some a
              \<and> interpolated_column depth_points readings ! i = Some a0
              \<and> \<bar>a - a0\<bar> \<le> 17 * u * V)"
proof -
  consider "readings = []" | d v where "readings = [(d, v)]" | "2 \<le> length readings"
  proof (cases readings)
    case Nil
    then show ?thesis using that by simp
  next
    case (Cons x xs)
    then show ?thesis using that by (cases xs; cases x) auto
  qed
  then show ?thesis
  proof cases
    case 1
    then have "interpolated_column_rounded rnd depth_points readings ! i = None"
      using i by (simp add: interpolated_column_rounded_def interp_column_rounded_def)
    moreover have "interpolated_column depth_points readings ! i = None"
      using 1 i by (simp add: interpolated_column_no_reading)
    ultimately show ?thesis by blast
  next
    case 2
    then have "\<bar>v\<bar> \<le> V" using bnd by simp
    then have "0 \<le> V" by (meson abs_ge_zero order_trans)
    then have z: "\<bar>v - v\<bar> \<le> 17 * u * V" using u(1) by simp
    have "interpolated_column_rounded rnd depth_points readings ! i = Some v"
      using 2 i by (simp add: interpolated_column_rounded_def interp_column_rounded_def)
    moreover have "interpolated_column depth_points readings ! i = Some v"
      using 2 i by (simp add: interpolated_column_one_reading)
    ultimately show ?thesis using z by blast
  next
    case 3
    define ds where "ds = map fst readings"
    define vs where "vs = map snd readings"
    define dss where "dss = map (\<lambda>i. ds ! i) (argsort ds)"
    define vss where "vss = map (\<lambda>i. vs ! i) (argsort ds)"
    note S = sorted_readings[OF dist ds_def vs_def dss_def vss_def]
    have ne: "dss \<noteq> []" using S(1) 3 by auto
    have vb: "\<forall>k<length dss. \<bar>vss ! k\<bar> \<le> V"
    proof (intro allI impI)
      fix k assume k: "k < length dss"
      then have "(dss ! k, vss ! k) \<in> set (zip dss vss)"
        using S(1,2) by (auto simp add: in_set_zip intro!: exI[of _ k])
      then have "(dss ! k, vss ! k) \<in> set readings" using S(4) by simp
      then show "\<bar>vss ! k\<bar> \<le> V" using bnd by blast
    qed
    have "interpolated_column_rounded rnd depth_points readings
          = map (\<lambda>(depth, old). interp_cell_rounded rnd dss vss depth old)
              (zip depth_points (replicate (length depth_points) None))"
      using 3
      by (simp add: interpolated_column_rounded_def interp_column_rounded_def Let_def
          ds_def vs_def dss_def vss_def)
    then have r: "interpolated_column_rounded rnd depth_points readings ! i
        = interp_cell_rounded rnd dss vss (depth_points ! i) None"
      using i by simp
    have "interpolated_column depth_points readings
          = map (\<lambda>(depth, old). interp_cell dss vss depth old)
              (zip depth_points (replicate (length depth_points) None))"
      using 3
      by (simp add: interpolated_column_def interp_column_def Let_def
          ds_def vs_def dss_def vss_def)
    then have e: "interpolated_column depth_points readings ! i
        = interp_cell dss vss (depth_points ! i) None"
      using i by simp
    show ?thesis
      unfolding r e by (rule interp_cell_rounded_error[OF err u S(3) ne vb])
  qed
qed

lemma column_rounded_mono:
  assumes err: "\<forall>x. \<bar>rnd x - x\<bar> \<le> u * \<bar>x\<bar>" and u: "0 \<le> u" "u \<le> 1 / 8"
    and dist: "distinct (map fst readings)"
    and mono: "\<forall>(d, v)\<in>set readings. \<forall>(d', v')\<in>set readings. d \<le> d' \<longrightarrow> v \<le> v'"
    and bnd: "\<forall>(d, v)\<in>set readings. \<bar>v\<bar> \<le> V"
    and i: "i < length depth_points" and j: "j < length depth_points"
    and le: "depth_points ! i \<le> depth_points ! j"
    and a: "interpolated_column_rounded rnd depth_points readings ! i = Some a"
    and b: "interpolated_column_rounded rnd depth_points readings ! j = Some b"
  shows "a \<le> b + 34 * u * V"
proof -
  from column_rounded_error[OF err u dist bnd i] a obtain a0 where
    a0: "interpolated_column depth_points readings ! i = Some a0" "\<bar>a - a0\<bar> \<le> 17 * u * V"
    by auto
  from column_rounded_error[OF err u dist bnd j] b obtain b0 where
    b0: "interpolated_column depth_points readings ! j = Some b0" "\<bar>b - b0\<bar> \<le> 17 * u * V"
    by auto
  have "a0 \<le> b0" by (rule column_mono[OF dist mono i j le a0(1) b0(1)])
  moreover have "a - a0 \<le> 17 * u * V" using a0(2) by (simp add: abs_le_iff)
  moreover have "b0 - b \<le> 17 * u * V" using b0(2) by (simp add: abs_le_iff)
  ultimately show ?thesis by simp
qed

lemma filled_column_tolerance:
  fixes c :: "cell list" and tol :: rat and depth_points :: "rat list"
  assumes len: "length c = length depth_points"
    and ax: "(\<forall>i j. i < j \<and> j < length depth_points \<longrightarrow> depth_points ! i < depth_points ! j)
       \<or> (\<forall>i j. i < j \<and> j < length depth_points \<longrightarrow> depth_points ! j < depth_points ! i)"
    and cm: "\<And>i j a b. i < length depth_points \<Longrightarrow> j < length depth_points
                \<Longrightarrow> depth_points ! i \<le> depth_points ! j
                \<Longrightarrow> c ! i = Some a \<Longrightarrow> c ! j = Some b \<Longrightarrow> a \<le> b + tol"
    and i: "i < length depth_points" and j: "j < length depth_points"
    and le: "depth_points ! i \<le> depth_points ! j"
    and a: "fill_column c ! i = Some a" and b: "fill_column c ! j = Some b"
  shows "a \<le> b + tol"
proof -
  let ?valid = "filter (\<lambda>i. c ! i \<noteq> None) [0..<length c]"
  have "\<not> (\<forall>k<length c. c ! k = None)"
  proof
    assume "\<forall>k<length c. c ! k = None"
    then have "fill_column c = c" "c ! i = None"
      using fill_column_no_valid[of c] i len by simp_all
    then show False using a by simp
  qed
  then obtain k where k: "k < length c" "c ! k \<noteq> None" by blast
  note V = first_valid_index[OF k]
  define lo where "lo = hd ?valid"
  define hi where "hi = last ?valid"
  define clamp where "clamp = (\<lambda>x. if x < lo then lo else if x \<le> hi then x else hi)"
  have lohi: "lo \<le> hi" "hi < length depth_points"
    using V(2,3,5) len by (simp_all add: lo_def hi_def)
  have cl_len: "\<And>x. x < length depth_points \<Longrightarrow> clamp x < length depth_points"
    using lohi by (simp add: clamp_def)
  have cl_mono: "\<And>x y. x \<le> y \<Longrightarrow> clamp x \<le> clamp y"
    using lohi by (auto simp: clamp_def)
  have nth: "\<And>x. x < length depth_points \<Longrightarrow> fill_column c ! x = c ! clamp x"
    using fill_column_nth[OF V(1)] len by (simp add: clamp_def lo_def hi_def)
  have ci: "c ! clamp i = Some a" and cj: "c ! clamp j = Some b"
    using nth i j a b by simp_all
  have axis_le: "depth_points ! x \<le> depth_points ! y"
    if "x \<le> y" "y < length depth_points"
       "\<forall>i j. i < j \<and> j < length depth_points \<longrightarrow> depth_points ! i < depth_points ! j"
    for x y
    using that by (cases "x = y") (auto simp: less_imp_le)
  have axis_ge: "depth_points ! y \<le> depth_points ! x"
    if "x \<le> y" "y < length depth_points"
       "\<forall>i j. i < j \<and> j < length depth_points \<longrightarrow> depth_points ! j < depth_points ! i"
    for x y
    using that by (cases "x = y") (auto simp: less_imp_le)
  have "depth_points ! clamp i \<le> depth_points ! clamp j"
    using ax
  proof
    assume inc: "\<forall>i j. i < j \<and> j < length depth_points \<longrightarrow> depth_points ! i < depth_points ! j"
    have "\<not> j < i" using inc i le by (metis not_le)
    then have "clamp i \<le> clamp j" using cl_mono by simp
    then show ?thesis using axis_le[OF _ cl_len[OF j] inc] by simp
  next
    assume dec: "\<forall>i j. i < j \<and> j < length depth_points \<longrightarrow> depth_points ! j < depth_points ! i"
    have "\<not> i < j" using dec j le by (metis not_le)
    then have "clamp j \<le> clamp i" using cl_mono by simp
    then show ?thesis using axis_ge[OF _ cl_len[OF i] dec] by simp
  qed
  from cm[OF cl_len[OF i] cl_len[OF j] this ci cj] show ?thesis .
qed

lemma double_rounding_error:
  fixes x u :: rat
  assumes err: "\<forall>x. \<bar>rnd x - x\<bar> \<le> u * \<bar>x\<bar>" and u: "0 \<le> u"
  shows "\<bar>rnd (rnd x) - x\<bar> \<le> (2 * u + u * u) * \<bar>x\<bar>"
proof -
  have e1: "\<bar>rnd x - x\<bar> \<le> u * \<bar>x\<bar>" using err by blast
  have e2: "\<bar>rnd (rnd x) - rnd x\<bar> \<le> u * \<bar>rnd x\<bar>" using err by blast
  have "\<bar>rnd x\<bar> \<le> \<bar>rnd x - x\<bar> + \<bar>x\<bar>" by simp
  then have "\<bar>rnd x\<bar> \<le> u * \<bar>x\<bar> + \<bar>x\<bar>" using e1 by simp
  then have "u * \<bar>rnd x\<bar> \<le> u * (u * \<bar>x\<bar> + \<bar>x\<bar>)" using u by (rule mult_left_mono)
  then have e3: "\<bar>rnd (rnd x) - rnd x\<bar> \<le> u * (u * \<bar>x\<bar> + \<bar>x\<bar>)" using e2 by simp
  have "\<bar>rnd (rnd x) - x\<bar> \<le> \<bar>rnd (rnd x) - rnd x\<bar> + \<bar>rnd x - x\<bar>" by simp
  then have "\<bar>rnd (rnd x) - x\<bar> \<le> u * (u * \<bar>x\<bar> + \<bar>x\<bar>) + u * \<bar>x\<bar>" using e3 e1 by simp
  moreover have "u * (u * \<bar>x\<bar> + \<bar>x\<bar>) + u * \<bar>x\<bar> = (2 * u + u * u) * \<bar>x\<bar>"
    by (simp add: algebra_simps)
  ultimately show ?thesis by simp
qed

lemma depth_axis_rounded_monotone:
  fixes u :: rat
  assumes err: "\<forall>x. \<bar>rnd x - x\<bar> \<le> u * \<bar>x\<bar>" and u: "0 \<le> u"
    and size: "8 * u * of_nat (length pts) \<le> 1"
    and ax: "depth_axis_rounded rnd depth_res max_d = Inr pts"
  shows "(\<forall>i j. i < j \<and> j < length pts \<longrightarrow> pts ! i < pts ! j)
       \<or> (\<forall>i j. i < j \<and> j < length pts \<longrightarrow> pts ! j < pts ! i)"
proof -
  have nz: "depth_res \<noteq> 0"
    using ax by (simp add: depth_axis_rounded_cases split: if_splits)
  have nth: "\<And>i. i < length pts \<Longrightarrow> pts ! i = rnd (rnd (of_nat i * depth_res))"
    using ax by (auto simp add: depth_axis_rounded_cases split: if_splits)
  define e where "e = 2 * u + u * u"
  define r where "r = \<bar>depth_res\<bar>"
  have r: "0 < r" using nz by (simp add: r_def)
  have e0: "0 \<le> e" using u by (simp add: e_def)
  have gap: "e * (of_nat i + of_nat j) * r < (of_nat j - of_nat i) * r"
    if ij: "i < j" "j < length pts" for i j
  proof -
    define n where "n = length pts"
    have n1: "(1::rat) \<le> of_nat n" using ij by (simp add: n_def)
    have un: "8 * (u * of_nat n) \<le> 1" using size by (simp add: n_def)
    have "u * 1 \<le> u * of_nat n" using n1 u by (rule mult_left_mono)
    then have u8: "u \<le> 1 / 8" using un by simp
    have "u * u \<le> u * (1 / 8)" using u8 u by (rule mult_left_mono)
    then have e1: "e \<le> 17 / 8 * u" by (simp add: e_def)
    have "(of_nat i + of_nat j :: rat) \<le> 2 * of_nat n"
      using ij by (simp add: n_def)
    then have "e * (of_nat i + of_nat j) \<le> e * (2 * of_nat n)" using e0 by (rule mult_left_mono)
    moreover have "e * (2 * of_nat n) \<le> 17 / 8 * u * (2 * of_nat n)"
      using e1 by (rule mult_right_mono) simp
    moreover have "17 / 8 * u * (2 * of_nat n) = 17 / 4 * (u * of_nat n)" by simp
    ultimately have "e * (of_nat i + of_nat j) \<le> 17 / 32" using un by linarith
    moreover have "(1::rat) \<le> of_nat j - of_nat i"
    proof -
      have "Suc i \<le> j" using ij(1) by simp
      then have "(of_nat (Suc i) :: rat) \<le> of_nat j" by (simp only: of_nat_le_iff)
      then show ?thesis by simp
    qed
    ultimately have "e * (of_nat i + of_nat j) < of_nat j - of_nat i" by linarith
    then show ?thesis using r by (rule mult_strict_right_mono)
  qed
  have dev: "\<bar>rnd (rnd (of_nat i * depth_res)) - of_nat i * depth_res\<bar> \<le> e * of_nat i * r" for i
  proof -
    have "\<bar>rnd (rnd (of_nat i * depth_res)) - of_nat i * depth_res\<bar>
            \<le> e * \<bar>of_nat i * depth_res\<bar>"
      unfolding e_def by (rule double_rounding_error[OF err u])
    moreover have "\<bar>of_nat i * depth_res\<bar> = of_nat i * r" by (simp add: r_def abs_mult)
    ultimately show ?thesis by (simp add: mult.assoc)
  qed
  show ?thesis
  proof (cases "0 < depth_res")
    case True
    then have rr: "r = depth_res" by (simp add: r_def)
    have "\<forall>i j. i < j \<and> j < length pts \<longrightarrow> pts ! i < pts ! j"
    proof (intro allI impI)
      fix i j assume ij: "i < j \<and> j < length pts"
      then have i: "i < length pts" by simp
      define x where "x = of_nat i * depth_res"
      define y where "y = of_nat j * depth_res"
      have dx: "rnd (rnd x) - x \<le> e * of_nat i * r" using dev[of i] by (simp add: x_def abs_le_iff)
      have dy: "y - rnd (rnd y) \<le> e * of_nat j * r" using dev[of j] by (simp add: y_def abs_le_iff)
      have "e * (of_nat i + of_nat j) * r < (of_nat j - of_nat i) * r"
        using gap ij by blast
      moreover have "(of_nat j - of_nat i) * r = y - x" by (simp add: rr x_def y_def algebra_simps)
      moreover have "e * (of_nat i + of_nat j) * r = e * of_nat i * r + e * of_nat j * r"
        by (simp add: algebra_simps)
      ultimately have "rnd (rnd x) < rnd (rnd y)" using dx dy by linarith
      then show "pts ! i < pts ! j" using nth i ij by (simp add: x_def y_def)
    qed
    then show ?thesis by blast
  next
    case False
    then have rr: "r = - depth_res" using nz by (simp add: r_def)
    have "\<forall>i j. i < j \<and> j < length pts \<longrightarrow> pts ! j < pts ! i"
    proof (intro allI impI)
      fix i j assume ij: "i < j \<and> j < length pts"
      then have i: "i < length pts" by simp
      define x where "x = of_nat i * depth_res"
      define y where "y = of_nat j * depth_res"
      have dx: "x - rnd (rnd x) \<le> e * of_nat i * r" using dev[of i] by (simp add: x_def abs_le_iff)
      have dy: "rnd (rnd y) - y \<le> e * of_nat j * r" using dev[of j] by (simp add: y_def abs_le_iff)
      have "e * (of_nat i + of_nat j) * r < (of_nat j - of_nat i) * r"
        using gap ij by blast
      moreover have "(of_nat j - of_nat i) * r = x - y" by (simp add: rr x_def y_def algebra_simps)
      moreover have "e * (of_nat i + of_nat j) * r = e * of_nat i * r + e * of_nat j * r"
        by (simp add: algebra_simps)
      ultimately have "rnd (rnd y) < rnd (rnd x)" using dx dy by linarith
      then show "pts ! j < pts ! i" using nth i ij by (simp add: x_def y_def)
    qed
    then show ?thesis by blast
  qed
qed

text \<open>
  Claim C8, as stated, fails on doubles. With two readings of 3.0 at the depths 0 and 5 and
  the depth axis 0, 1, \<dots>, 5 the blend stores 3.0000000000000004 at depth 1 and 3.0 at
  depth 2: the readings do not decrease with depth, the column does.
\<close>

theorem monotone_columns_counterexample:
  "depth_axis_rounded round_double (depth_resolution equal_readings_input)
       (max_depth equal_readings_input) = Inr [0, 1, 2, 3, 4, 5]
   \<and> run_time_index equal_readings_input = [0]
   \<and> valid_readings (extract_var_data (depth_arrays equal_readings_input) [0] ''temp'') 0
       = [(0, 3), (5, 3)]
   \<and> final_column_rounded round_double [0, 1, 2, 3, 4, 5]
         (extract_var_data (depth_arrays equal_readings_input) [0] ''temp'') 1
         (fill_values equal_readings_input) 0
       = [Some 3, Some (3 + 1 / 2 ^ 51), Some 3, Some 3, Some 3, Some 3]
   \<and> \<not> (3 + 1 / 2 ^ 51 \<le> (3::rat))"
  by code_simp

text \<open>
  Claim C8, amended: let every operation round with a relative error of at most \<open>u\<close>
  (\<open>u = 2\<^sup>-\<^sup>5\<^sup>3\<close> for doubles) and let the depth axis have at most \<open>1 / (8 u)\<close> points.
  At a time index where the values of the valid readings do not decrease with depth and
  are at most \<open>V\<close> in absolute value, the column stored, the cells set by the boundary
  fill included, decreases with depth by at most \<open>34 u V\<close>: two non-missing cells
  \<open>a\<close> and \<open>b\<close>, the first at a depth not beyond the second, satisfy
  \<open>a \<le> b + 34 u V\<close>. In exact arithmetic, \<open>u = 0\<close>, the column does not decrease.
\<close>

theorem monotone_columns:
  fixes u V :: rat
  assumes "\<forall>x. \<bar>rnd x - x\<bar> \<le> u * \<bar>x\<bar>" and "0 \<le> u"
    and "depth_axis_rounded rnd depth_res max_d = Inr depth_points"
    and "8 * u * of_nat (length depth_points) \<le> 1"
    and "readings = valid_readings (extract_var_data registry time_index var) t_idx"
    and "\<forall>(d, v)\<in>set readings. \<forall>(d', v')\<in>set readings. d \<le> d' \<longrightarrow> v \<le> v'"
    and "\<forall>(d, v)\<in>set readings. \<bar>v\<bar> \<le> V"
    and "col = final_column_rounded rnd depth_points
                 (extract_var_data registry time_index var) n fill t_idx"
    and "i < length depth_points" and "j < length depth_points"
    and "depth_points ! i \<le> depth_points ! j"
    and "col ! i = Some a" and "col ! j = Some b"
  shows "a \<le> b + 34 * u * V"
proof -
  let ?vd = "extract_var_data registry time_index var"
  let ?c = "interpolated_column_rounded rnd depth_points readings"
  have dist: "distinct (map fst readings)"
    unfolding assms(5) by (rule distinct_readings)
  have u8: "u \<le> 1 / 8"
  proof -
    have "(1::rat) \<le> of_nat (length depth_points)" using assms(9) by simp
    then have "u * 1 \<le> u * of_nat (length depth_points)" using assms(2) by (rule mult_left_mono)
    then show ?thesis using assms(4) by simp
  qed
  note ax = depth_axis_rounded_monotone[OF assms(1,2,4,3)]
  have cm: "x \<le> y + 34 * u * V"
    if "p < length depth_points" "q < length depth_points"
      "depth_points ! p \<le> depth_points ! q" "?c ! p = Some x" "?c ! q = Some y"
    for p q x y
    by (rule column_rounded_mono[OF assms(1,2) u8 dist assms(6,7) that])
  have col: "col = (if fill_pass_runs fill ?vd n then fill_column ?c else ?c)"
    by (simp add: assms(8) final_column_rounded_def Let_def assms(5))
  show ?thesis
  proof (cases "fill_pass_runs fill ?vd n")
    case True
    then have "fill_column ?c ! i = Some a" "fill_column ?c ! j = Some b"
      using col assms(12,13) by simp_all
    from filled_column_tolerance[OF length_interpolated_column_rounded ax cm assms(9,10,11) this]
    show ?thesis .
  next
    case False
    then have "?c ! i = Some a" "?c ! j = Some b"
      using col assms(12,13) by simp_all
    from cm[OF assms(9,10,11) this] show ?thesis .
  qed
qed

theorem monotone_columns_witness:
  "depth_axis_rounded round_double (depth_resolution equal_readings_input)
       (max_depth equal_readings_input) = Inr [0, 1, 2, 3, 4, 5]
   \<and> valid_readings (extract_var_data (depth_arrays equal_readings_input) [0] ''temp'') 0
       = [(0, 3), (5, 3)]
   \<and> final_column_rounded round_double [0, 1, 2, 3, 4, 5]
         (extract_var_data (depth_arrays equal_readings_input) [0] ''temp'') 1
         (fill_values equal_readings_input) 0 ! 1 = Some (3 + 1 / 2 ^ 51)
   \<and> final_column_rounded round_double [0, 1, 2, 3, 4, 5]
         (extract_var_data (depth_arrays equal_readings_input) [0] ''temp'') 1
         (fill_values equal_readings_input) 0 ! 2 = Some 3
   \<and> (3::rat) + 1 / 2 ^ 51 \<le> 3 + 34 * (1 / 2 ^ 53) * 3"
proof -
  let ?vd = "extract_var_data (depth_arrays equal_readings_input) [0] ''temp''"
  let ?pts = "[0, 1, 2, 3, 4, 5] :: rat list"
  let ?col = "final_column_rounded round_double ?pts ?vd 1 (fill_values equal_readings_input) 0"
  have u0: "(0::rat) \<le> 1 / 2 ^ 53" by simp
  have ax: "depth_axis_rounded round_double (depth_resolution equal_readings_input)
       (max_depth equal_readings_input) = Inr ?pts" by code_simp
  have sz: "8 * (1 / 2 ^ 53) * rat_of_nat (length ?pts) \<le> 1" by simp
  have rs: "valid_readings ?vd 0 = [(0, 3), (5, 3)]" by code_simp
  have mono: "\<forall>(d, v)\<in>set (valid_readings ?vd 0). \<forall>(d', v')\<in>set (valid_readings ?vd 0).
      d \<le> d' \<longrightarrow> v \<le> v'"
    unfolding rs by simp
  have bnd: "\<forall>(d, v)\<in>set (valid_readings ?vd 0). \<bar>v\<bar> \<le> 3"
    unfolding rs by simp
  have i: "1 < length ?pts" and j: "2 < length ?pts" and le: "?pts ! 1 \<le> ?pts ! 2"
    by simp_all
  have a: "?col ! 1 = Some (3 + 1 / 2 ^ 51)" by code_simp
  have b: "?col ! 2 = Some 3" by code_simp
  have "(3::rat) + 1 / 2 ^ 51 \<le> 3 + 34 * (1 / 2 ^ 53) * 3"
    by (rule monotone_columns[OF round_double_relative_error u0 ax sz refl mono bnd refl i j le a b])
  then show ?thesis using ax rs a b by blast
qed

subsection \<open>The grids depend on the inputs of the run alone\<close>

lemma interpolate_variable_msgs:
  "map_sum id (\<lambda>(a, m, d). (a, d))
     (interpolate_variable registry time_index depth_points fill var (arrays, msgs, dv))
   = map_sum id (\<lambda>(a, m, d). (a, d))
       (interpolate_variable registry time_index depth_points fill var (arrays, msgs', dv))"
  by (simp add: interpolate_variable_def Let_def split: option.splits)

lemma interpolate_all_msgs:
  "(case interpolate_all registry time_index depth_points fill vars (arrays, msgs, dv) of
      (e, (a, m, d)) \<Rightarrow> (e, a, d))
   = (case interpolate_all registry time_index depth_points fill vars (arrays, msgs', dv) of
      (e, (a, m, d)) \<Rightarrow> (e, a, d))"
proof (induction vars arbitrary: arrays msgs msgs' dv)
  case Nil
  then show ?case by simp
next
  case (Cons var vars)
  let ?r = "interpolate_variable registry time_index depth_points fill var (arrays, msgs, dv)"
  let ?r' = "interpolate_variable registry time_index depth_points fill var (arrays, msgs', dv)"
  have eq: "map_sum id (\<lambda>(a, m, d). (a, d)) ?r = map_sum id (\<lambda>(a, m, d). (a, d)) ?r'"
    by (rule interpolate_variable_msgs)
  show ?case
  proof (cases ?r)
    case (Inl e)
    then have "?r' = Inl e" using eq by (cases ?r') auto
    then show ?thesis using Inl by simp
  next
    case (Inr st)
    obtain a1 m1 d1 where st: "st = (a1, m1, d1)" by (cases st) auto
    obtain st' where r': "?r' = Inr st'" using eq Inr by (cases ?r') auto
    obtain a2 m2 d2 where st': "st' = (a2, m2, d2)" by (cases st') auto
    have same: "a2 = a1" "d2 = d1" using eq Inr r' st st' by simp_all
    show ?thesis using Inr r' st st' same Cons.IH[of a1 m1 d1 m2] by simp
  qed
qed

lemma perform_interpolation_inputs:
  "depth_arrays (perform_interpolation s) = depth_arrays s"
  "depth_resolution (perform_interpolation s) = depth_resolution s"
  "max_depth (perform_interpolation s) = max_depth s"
  "fill_values (perform_interpolation s) = fill_values s"
  "interp_var_checkboxes (perform_interpolation s) = interp_var_checkboxes s"
  by (simp_all add: perform_interpolation_def Let_def
        split: list.splits sum.splits prod.splits option.splits)

lemma perform_interpolation_early:
  "depth_arrays s = [] \<or> variables_to_interpolate s = []
   \<Longrightarrow> interpolated_arrays (perform_interpolation s) = interpolated_arrays s"
  by (auto simp: perform_interpolation_def Let_def)

lemma perform_interpolation_grids:
  assumes "depth_arrays s1 = depth_arrays s2"
    and "depth_resolution s1 = depth_resolution s2" and "max_depth s1 = max_depth s2"
    and "fill_values s1 = fill_values s2"
    and "interp_var_checkboxes s1 = interp_var_checkboxes s2"
    and "depth_arrays s1 \<noteq> []" and "variables_to_interpolate s1 \<noteq> []"
  shows "interpolated_arrays (perform_interpolation s1)
           = interpolated_arrays (perform_interpolation s2)"
proof -
  have vars: "variables_to_interpolate s2 = variables_to_interpolate s1"
    using assms(5) by (simp add: variables_to_interpolate_def)
  have tis: "time_indices s2 = time_indices s1" using assms(1) by (simp add: time_indices_def)
  obtain first rest where ti: "time_indices s1 = first # rest"
    using time_indices_nonempty[OF assms(6)] by blast
  let ?ti = "fst (common_time_index first rest)"
  let ?w = "snd (common_time_index first rest)"
  show ?thesis
  proof (cases "depth_axis (depth_resolution s1) (max_depth s1)")
    case (Inl e)
    then show ?thesis using assms ti tis vars
      by (simp add: perform_interpolation_def Let_def)
  next
    case (Inr pts)
    let ?run = "\<lambda>msgs. interpolate_all (depth_arrays s1) ?ti pts (fill_values s1)
                       (variables_to_interpolate s1) (Map.empty, msgs, None)"
    obtain e1 a1 m1 d1 where r1: "?run (messages s1 @ ?w) = (e1, (a1, m1, d1))"
      by (metis prod_cases3)
    obtain e2 a2 m2 d2 where r2: "?run (messages s2 @ ?w) = (e2, (a2, m2, d2))"
      by (metis prod_cases3)
    have "a1 = a2"
      using interpolate_all_msgs[of "depth_arrays s1" ?ti pts "fill_values s1"
          "variables_to_interpolate s1" Map.empty "messages s1 @ ?w" None "messages s2 @ ?w"]
        r1 r2 by simp
    moreover have "interpolated_arrays (perform_interpolation s1) = a1"
      using assms(6,7) ti Inr r1
      by (cases e1) (simp_all add: perform_interpolation_def Let_def)
    moreover have "interpolated_arrays (perform_interpolation s2) = a2"
      using assms(1-7) ti tis vars Inr r2
      by (cases e2) (simp_all add: perform_interpolation_def Let_def)
    ultimately show ?thesis by simp
  qed
qed

text \<open>
  Claim C9: the grids of a run are determined by the registry, the selected variables, the
  depth resolution, the maximum depth and the fill option. Two states that agree on these
  get the same grids (depth axis and time axis included) from a run that gets past the
  early returns, whatever grids and messages they held before; and a second run on the
  state left by a first one stores the same grids again.
\<close>

theorem interpolation_deterministic:
  assumes "depth_arrays s1 = depth_arrays s2"
    and "depth_resolution s1 = depth_resolution s2" and "max_depth s1 = max_depth s2"
    and "fill_values s1 = fill_values s2"
    and "interp_var_checkboxes s1 = interp_var_checkboxes s2"
  shows "(depth_arrays s1 \<noteq> [] \<and> variables_to_interpolate s1 \<noteq> []
            \<longrightarrow> interpolated_arrays (perform_interpolation s1)
                  = interpolated_arrays (perform_interpolation s2))
       \<and> interpolated_arrays (perform_interpolation (perform_interpolation s1))
           = interpolated_arrays (perform_interpolation s1)"
proof -
  have a: "depth_arrays s1 \<noteq> [] \<and> variables_to_interpolate s1 \<noteq> []
            \<longrightarrow> interpolated_arrays (perform_interpolation s1)
                  = interpolated_arrays (perform_interpolation s2)"
    using perform_interpolation_grids[OF assms] by blast
  have b: "interpolated_arrays (perform_interpolation (perform_interpolation s1))
           = interpolated_arrays (perform_interpolation s1)"
  proof (cases "depth_arrays s1 = [] \<or> variables_to_interpolate s1 = []")
    case True
    then have "depth_arrays (perform_interpolation s1) = []
               \<or> variables_to_interpolate (perform_interpolation s1) = []"
      by (simp add: perform_interpolation_inputs variables_to_interpolate_def)
    then show ?thesis by (rule perform_interpolation_early)
  next
    case False
    then have "interpolated_arrays (perform_interpolation s1)
                 = interpolated_arrays (perform_interpolation (perform_interpolation s1))"
      by (intro perform_interpolation_grids) (simp_all add: perform_interpolation_inputs)
    then show ?thesis by simp
  qed
  show ?thesis using a b by blast
qed

theorem interpolation_deterministic_witness:
  "depth_arrays scenario_input = depth_arrays scenario_rerun_input
   \<and> depth_resolution scenario_input = depth_resolution scenario_rerun_input
   \<and> max_depth scenario_input = max_depth scenario_rerun_input
   \<and> fill_values scenario_input = fill_values scenario_rerun_input
   \<and> interp_var_checkboxes scenario_input = interp_var_checkboxes scenario_rerun_input
   \<and> interpolated_arrays scenario_input \<noteq> interpolated_arrays scenario_rerun_input
   \<and> depth_arrays scenario_input \<noteq> []
   \<and> variables_to_interpolate scenario_input \<noteq> []
   \<and> interpolated_arrays (perform_interpolation scenario_input)
       = interpolated_arrays (perform_interpolation scenario_rerun_input)
   \<and> interpolated_arrays (perform_interpolation (perform_interpolation scenario_input))
       = interpolated_arrays (perform_interpolation scenario_input)"
proof -
  have h: "depth_arrays scenario_input = depth_arrays scenario_rerun_input"
    "depth_resolution scenario_input = depth_resolution scenario_rerun_input"
    "max_depth scenario_input = max_depth scenario_rerun_input"
    "fill_values scenario_input = fill_values scenario_rerun_input"
    "interp_var_checkboxes scenario_input = interp_var_checkboxes scenario_rerun_input"
    by (simp_all add: scenario_rerun_input_def)
  have "interpolated_arrays scenario_input ''old'' \<noteq> interpolated_arrays scenario_rerun_input ''old''"
    by (simp add: scenario_rerun_input_def scenario_input_def example_processor_def)
  then have d: "interpolated_arrays scenario_input \<noteq> interpolated_arrays scenario_rerun_input"
    by metis
  show ?thesis
    using interpolation_deterministic[OF h] h d scenario_run(1,2) by blast
qed

end
